theory Spec2Isabelle
  imports Complex_Main "HOL-Library.AList"
begin

section \<open>Python values, objects and the store\<close>

text \<open>
  The functions of \<^verbatim>\<open>backend/llm.py\<close> work on conversations: Python lists of
  dictionaries whose values are strings, lists or further dictionaries. Lists and
  dictionaries are mutable objects that the caller and the callee share, so they live
  in a store: a list of objects, an object's address being its index. A new object is
  put at the end of the store. Strings, numbers, booleans and \<^verbatim>\<open>None\<close> are
  immutable and are plain values. A dictionary is an association list with string
  keys, in insertion order.
\<close>

datatype pyval =
    VNone
  | VBool bool
  | VInt int
  | VStr string
  | VRef nat

datatype pyobj =
    OList "pyval list"
  | ODict "(string \<times> pyval) list"

type_synonym heap = "pyobj list"

text \<open>
  The exceptions the code can raise, by the name Python gives them.
  \<open>ProviderError\<close> stands for whatever the provider's client library raises when a
  request or a stream fails, \<open>ImageError\<close> for an exception of the image library, and
  \<open>NoHtmlResponse\<close> for the \<^verbatim>\<open>Exception("No HTML response found in AI response")\<close>
  of line 239. \<open>Unmodelled\<close> is no Python exception: it is the outcome of the model
  where it does not follow Python, on a reference that denotes no object of the store
  (no Python program holds one) and on \<^verbatim>\<open>dict(x)\<close> for an \<open>x\<close> that is a list.
\<close>

datatype pyerror =
    IndexError
  | KeyError
  | TypeError
  | AttributeError
  | ValueError
  | AssertionError
  | ProviderError
  | ImageError
  | NoHtmlResponse
  | RecursionError
  | Unmodelled

text \<open>
  Every object of a running Python program exists, so a reference outside the store
  denotes nothing; \<open>lookup\<close> returns \<open>None\<close> for it.
\<close>

definition lookup :: "heap \<Rightarrow> nat \<Rightarrow> pyobj option" where
  "lookup h a = (if a < length h then Some (h ! a) else None)"

section \<open>Model Registry\<close>

text \<open>The enumeration \<^verbatim>\<open>Llm\<close> (lines 15-27), members in the order of their definition.\<close>

datatype Llm =
    GPT_4_VISION
  | GPT_4_TURBO_2024_04_09
  | GPT_4O_2024_05_13
  | GPT_4O_2024_08_06
  | GPT_4O_2024_11_20
  | CLAUDE_3_SONNET
  | CLAUDE_3_OPUS
  | CLAUDE_3_HAIKU
  | CLAUDE_3_5_SONNET_2024_06_20
  | CLAUDE_3_5_SONNET_2024_10_22
  | GEMINI_2_0_FLASH_EXP
  | O1_2024_12_17

fun Llm_value :: "Llm \<Rightarrow> string" where
  "Llm_value GPT_4_VISION = ''gpt-4-vision-preview''"
| "Llm_value GPT_4_TURBO_2024_04_09 = ''gpt-4-turbo-2024-04-09''"
| "Llm_value GPT_4O_2024_05_13 = ''gpt-4o-2024-05-13''"
| "Llm_value GPT_4O_2024_08_06 = ''gpt-4o-2024-08-06''"
| "Llm_value GPT_4O_2024_11_20 = ''gpt-4o-2024-11-20''"
| "Llm_value CLAUDE_3_SONNET = ''claude-3-sonnet-20240229''"
| "Llm_value CLAUDE_3_OPUS = ''claude-3-opus-20240229''"
| "Llm_value CLAUDE_3_HAIKU = ''claude-3-haiku-20240307''"
| "Llm_value CLAUDE_3_5_SONNET_2024_06_20 = ''claude-3-5-sonnet-20240620''"
| "Llm_value CLAUDE_3_5_SONNET_2024_10_22 = ''claude-3-5-sonnet-20241022''"
| "Llm_value GEMINI_2_0_FLASH_EXP = ''gemini-2.0-flash-exp''"
| "Llm_value O1_2024_12_17 = ''o1-2024-12-17''"

definition Llm_members :: "Llm list" where
  "Llm_members =
     [GPT_4_VISION, GPT_4_TURBO_2024_04_09, GPT_4O_2024_05_13, GPT_4O_2024_08_06,
      GPT_4O_2024_11_20, CLAUDE_3_SONNET, CLAUDE_3_OPUS, CLAUDE_3_HAIKU,
      CLAUDE_3_5_SONNET_2024_06_20, CLAUDE_3_5_SONNET_2024_10_22, GEMINI_2_0_FLASH_EXP,
      O1_2024_12_17]"

text \<open>
  \<^verbatim>\<open>Llm(s)\<close>: the member whose value is \<open>s\<close>; Python's \<^verbatim>\<open>Enum\<close> raises
  \<^verbatim>\<open>ValueError\<close> when there is none.
\<close>

definition Llm_call :: "string \<Rightarrow> pyerror + Llm" where
  "Llm_call s =
     (case find (\<lambda>m. Llm_value m = s) Llm_members of
        None \<Rightarrow> Inl ValueError
      | Some m \<Rightarrow> Inr m)"

text \<open>\<^verbatim>\<open>convert_frontend_str_to_llm\<close> (lines 31-37).\<close>

definition convert_frontend_str_to_llm :: "string \<Rightarrow> pyerror + Llm" where
  "convert_frontend_str_to_llm frontend_str =
     (if frontend_str = ''gpt_4_vision'' then Inr GPT_4_VISION
      else if frontend_str = ''claude_3_sonnet'' then Inr CLAUDE_3_SONNET
      else Llm_call frontend_str)"


section \<open>Operations on objects\<close>

text \<open>\<^verbatim>\<open>obj[key]\<close> for a string \<open>key\<close>.\<close>

definition getitem :: "heap \<Rightarrow> pyval \<Rightarrow> string \<Rightarrow> pyerror + pyval" where
  "getitem h obj key =
     (case obj of
        VRef a \<Rightarrow>
          (case lookup h a of
             None \<Rightarrow> Inl Unmodelled
           | Some (OList xs) \<Rightarrow> Inl TypeError
           | Some (ODict kvs) \<Rightarrow>
               (case map_of kvs key of None \<Rightarrow> Inl KeyError | Some v \<Rightarrow> Inr v))
      | _ \<Rightarrow> Inl TypeError)"

text \<open>\<^verbatim>\<open>obj[key] = v\<close> for a string \<open>key\<close>: the store after the assignment.\<close>

definition setitem :: "pyval \<Rightarrow> string \<Rightarrow> pyval \<Rightarrow> heap \<Rightarrow> pyerror + heap" where
  "setitem obj key v h =
     (case obj of
        VRef a \<Rightarrow>
          (case lookup h a of
             None \<Rightarrow> Inl Unmodelled
           | Some (OList xs) \<Rightarrow> Inl TypeError
           | Some (ODict kvs) \<Rightarrow> Inr (h[a := ODict (AList.update key v kvs)]))
      | _ \<Rightarrow> Inl TypeError)"

text \<open>\<^verbatim>\<open>del obj[key]\<close> for a string \<open>key\<close>.\<close>

definition delitem :: "pyval \<Rightarrow> string \<Rightarrow> heap \<Rightarrow> pyerror + heap" where
  "delitem obj key h =
     (case obj of
        VRef a \<Rightarrow>
          (case lookup h a of
             None \<Rightarrow> Inl Unmodelled
           | Some (OList xs) \<Rightarrow> Inl TypeError
           | Some (ODict kvs) \<Rightarrow>
               (case map_of kvs key of
                  None \<Rightarrow> Inl KeyError
                | Some v \<Rightarrow> Inr (h[a := ODict (AList.delete key kvs)])))
      | _ \<Rightarrow> Inl TypeError)"

text \<open>\<^verbatim>\<open>isinstance(v, list)\<close>.\<close>

definition is_list :: "heap \<Rightarrow> pyval \<Rightarrow> bool" where
  "is_list h v =
     (case v of
        VRef a \<Rightarrow> (case lookup h a of Some (OList xs) \<Rightarrow> True | _ \<Rightarrow> False)
      | _ \<Rightarrow> False)"

text \<open>The elements of a list object (\<open>[]\<close> for any other value).\<close>

definition list_items :: "heap \<Rightarrow> pyval \<Rightarrow> pyval list" where
  "list_items h v =
     (case v of
        VRef a \<Rightarrow> (case lookup h a of Some (OList xs) \<Rightarrow> xs | _ \<Rightarrow> [])
      | _ \<Rightarrow> [])"

subsection \<open>\<^verbatim>\<open>copy.deepcopy\<close>\<close>

text \<open>
  \<^verbatim>\<open>copy.deepcopy\<close> as CPython's \<^verbatim>\<open>copy.py\<close> has it. An immutable value is
  returned as it is. For a list or a dictionary \<open>x\<close> the memo is asked first; when
  \<open>x\<close> is not in it an empty object \<open>y\<close> is made and entered in the memo for \<open>x\<close>,
  then the copies of the elements of \<open>x\<close> are put into \<open>y\<close> one after the other. The
  memo keeps the sharing and the cycles of the original in the copy.

  The first argument bounds the depth of the recursion, as Python's recursion limit
  does: a structure nested deeper raises \<^verbatim>\<open>RecursionError\<close>. It counts the nested
  calls of \<^verbatim>\<open>deepcopy\<close>, not the interpreter's frames.
\<close>

type_synonym memo = "nat \<Rightarrow> nat option"

definition list_append :: "heap \<Rightarrow> nat \<Rightarrow> pyval \<Rightarrow> heap" where
  "list_append h y v = (case h ! y of OList ys \<Rightarrow> h[y := OList (ys @ [v])] | ODict kvs \<Rightarrow> h)"

definition dict_store :: "heap \<Rightarrow> nat \<Rightarrow> string \<Rightarrow> pyval \<Rightarrow> heap" where
  "dict_store h y k v =
     (case h ! y of ODict kvs \<Rightarrow> h[y := ODict (AList.update k v kvs)] | OList ys \<Rightarrow> h)"

primrec deepcopy_list ::
  "(pyval \<Rightarrow> heap \<times> memo \<Rightarrow> pyerror + pyval \<times> heap \<times> memo) \<Rightarrow> pyval list \<Rightarrow> nat \<Rightarrow>
     heap \<times> memo \<Rightarrow> pyerror + heap \<times> memo" where
  "deepcopy_list f [] y s = Inr s"
| "deepcopy_list f (x # xs) y s =
     (case f x s of
        Inl e \<Rightarrow> Inl e
      | Inr (v, h, m) \<Rightarrow> deepcopy_list f xs y (list_append h y v, m))"

primrec deepcopy_dict ::
  "(pyval \<Rightarrow> heap \<times> memo \<Rightarrow> pyerror + pyval \<times> heap \<times> memo) \<Rightarrow> (string \<times> pyval) list \<Rightarrow> nat \<Rightarrow>
     heap \<times> memo \<Rightarrow> pyerror + heap \<times> memo" where
  "deepcopy_dict f [] y s = Inr s"
| "deepcopy_dict f (kv # kvs) y s =
     (case f (snd kv) s of
        Inl e \<Rightarrow> Inl e
      | Inr (v, h, m) \<Rightarrow> deepcopy_dict f kvs y (dict_store h y (fst kv) v, m))"

primrec deepcopy :: "nat \<Rightarrow> pyval \<Rightarrow> heap \<times> memo \<Rightarrow> pyerror + pyval \<times> heap \<times> memo" where
  "deepcopy 0 x s = Inl RecursionError"
| "deepcopy (Suc n) x s =
     (case x of
        VRef a \<Rightarrow>
          (case snd s a of
             Some y \<Rightarrow> Inr (VRef y, s)
           | None \<Rightarrow>
               (case lookup (fst s) a of
                  None \<Rightarrow> Inl Unmodelled
                | Some (OList xs) \<Rightarrow>
                    (case deepcopy_list (deepcopy n) xs (length (fst s))
                            (fst s @ [OList []], (snd s)(a \<mapsto> length (fst s))) of
                       Inl e \<Rightarrow> Inl e
                     | Inr s' \<Rightarrow> Inr (VRef (length (fst s)), s'))
                | Some (ODict kvs) \<Rightarrow>
                    (case deepcopy_dict (deepcopy n) kvs (length (fst s))
                            (fst s @ [ODict []], (snd s)(a \<mapsto> length (fst s))) of
                       Inl e \<Rightarrow> Inl e
                     | Inr s' \<Rightarrow> Inr (VRef (length (fst s)), s'))))
      | _ \<Rightarrow> Inr (x, s))"

section \<open>The providers and the world around a call\<close>

text \<open>
  What a call leaves behind, besides its result: the store, the requests sent to a
  provider (each with the store as it was when the request was sent, which says what
  the references of the request denoted), the fragments handed to the caller's
  callback in the order of the calls, how often a client was closed, and the files
  the debug writer wrote. The callback is taken to record its argument and return.
  Output to the terminal (\<^verbatim>\<open>print\<close>, \<^verbatim>\<open>pprint_prompt\<close>) is left out.
\<close>

record openai_params =
  op_model :: string
  op_messages :: pyval
  op_stream :: bool
  op_timeout :: int
  op_temperature :: real
  op_max_tokens :: "int option"

record claude_params =
  cp_model :: string
  cp_max_tokens :: int
  cp_temperature :: real
  cp_system :: pyval
  cp_messages :: pyval
  cp_extra_headers :: "(string \<times> string) list"

datatype request = OpenAIRequest openai_params | ClaudeRequest claude_params

record world =
  w_heap :: heap
  w_calls :: "(request \<times> heap) list"
  w_sink :: "string list"
  w_closed :: nat
  w_debug :: "(string \<times> string) list"

text \<open>
  A stream of the provider: the items it yields, and whether it then ends or raises.
\<close>

datatype stream_end = EndOfStream | StreamRaises

datatype 'a pystream = PyStream "'a list" stream_end

text \<open>
  A \<^verbatim>\<open>ChatCompletionChunk\<close> of the OpenAI client, as far as the code reads it:
  \<^verbatim>\<open>chunk.choices[0].delta.content\<close>. An item of the stream that is no chunk fails
  the assertion of line 72.
\<close>

record ChoiceDelta =
  delta_content :: "string option"

record Choice =
  choice_delta :: "ChoiceDelta option"

record ChatCompletionChunk =
  chunk_choices :: "Choice list"

datatype stream_item = ChunkItem ChatCompletionChunk | OtherItem

type_synonym openai_provider = "openai_params \<Rightarrow> pyerror + stream_item pystream"

text \<open>
  The final message of the Anthropic client, as far as the code reads it:
  \<^verbatim>\<open>response.content[0].text\<close> and the token usage. A content block of another kind
  than text has no \<^verbatim>\<open>text\<close> attribute.
\<close>

datatype content_block = TextBlock string | ToolUseBlock

record Message =
  msg_content :: "content_block list"
  usage_input_tokens :: int
  usage_output_tokens :: int

text \<open>
  \<^verbatim>\<open>stream.get_final_message()\<close> returns a message or raises. The client library is
  typed to return a message; \<open>FinalNone\<close> is there so that the guard of line 238 is
  examined for every value \<^verbatim>\<open>response\<close> could hold.
\<close>

datatype final_message = FinalMessage Message | FinalNone | FinalRaises

record claude_reply =
  reply_text_stream :: "string pystream"
  reply_final :: final_message

text \<open>
  The provider answers a request; its answer may depend on the request and on how many
  requests were sent before.
\<close>

type_synonym claude_provider = "nat \<Rightarrow> claude_params \<Rightarrow> claude_reply"

definition send :: "request \<Rightarrow> world \<Rightarrow> world" where
  "send r w = w\<lparr>w_calls := w_calls w @ [(r, w_heap w)]\<rparr>"

definition callback :: "string \<Rightarrow> world \<Rightarrow> world" where
  "callback text w = w\<lparr>w_sink := w_sink w @ [text]\<rparr>"

definition client_close :: "world \<Rightarrow> world" where
  "client_close w = w\<lparr>w_closed := w_closed w + 1\<rparr>"

definition write_to_file :: "string \<Rightarrow> string \<Rightarrow> world \<Rightarrow> world" where
  "write_to_file name content w = w\<lparr>w_debug := w_debug w @ [(name, content)]\<rparr>"

text \<open>\<^verbatim>\<open>response.content[0].text\<close>.\<close>

definition content0_text :: "Message \<Rightarrow> pyerror + string" where
  "content0_text response =
     (case msg_content response of
        [] \<Rightarrow> Inl IndexError
      | TextBlock t # _ \<Rightarrow> Inr t
      | ToolUseBlock # _ \<Rightarrow> Inl AttributeError)"

section \<open>Streaming Transport: the OpenAI-compatible strategy\<close>

text \<open>The parameters of the request (lines 49-67).\<close>

definition openai_request_params :: "pyval \<Rightarrow> Llm \<Rightarrow> openai_params" where
  "openai_request_params messages model =
     (let params = \<lparr>op_model = Llm_value model, op_messages = messages, op_stream = True,
                     op_timeout = 600, op_temperature = 0, op_max_tokens = None\<rparr>;
          params = (if model = GPT_4_VISION \<or> model = GPT_4_TURBO_2024_04_09
                       \<or> model = GPT_4O_2024_05_13
                    then params\<lparr>op_max_tokens := Some 4096\<rparr> else params);
          params = (if model = GPT_4O_2024_11_20
                    then params\<lparr>op_max_tokens := Some 16384\<rparr> else params)
      in params)"

text \<open>
  The condition of lines 73-78 and the \<^verbatim>\<open>content\<close> of line 79: a list is true when
  it is not empty, a delta when it is not \<^verbatim>\<open>None\<close>, a string when it is neither
  \<^verbatim>\<open>None\<close> nor empty.
\<close>

definition chunk_content :: "ChatCompletionChunk \<Rightarrow> string option" where
  "chunk_content chunk =
     (case chunk_choices chunk of
        [] \<Rightarrow> None
      | choice # _ \<Rightarrow>
          (case choice_delta choice of
             None \<Rightarrow> None
           | Some delta \<Rightarrow>
               (case delta_content delta of
                  None \<Rightarrow> None
                | Some content \<Rightarrow> if content = [] then None else Some content)))"

text \<open>The loop of lines 71-81, with \<^verbatim>\<open>full_response\<close> as accumulator.\<close>

fun openai_chunks :: "stream_item list \<Rightarrow> string \<Rightarrow> world \<Rightarrow> (pyerror + string) \<times> world" where
  "openai_chunks [] full_response w = (Inr full_response, w)"
| "openai_chunks (OtherItem # rest) full_response w = (Inl AssertionError, w)"
| "openai_chunks (ChunkItem chunk # rest) full_response w =
     (case chunk_content chunk of
        None \<Rightarrow> openai_chunks rest full_response w
      | Some content \<Rightarrow> openai_chunks rest (full_response @ content) (callback content w))"

text \<open>
  \<^verbatim>\<open>stream_openai_response\<close> (lines 40-85). Making the client contacts nobody, so the
  key and the base URL play no part.
\<close>

definition stream_openai_response ::
  "openai_provider \<Rightarrow> pyval \<Rightarrow> Llm \<Rightarrow> world \<Rightarrow> (pyerror + string) \<times> world" where
  "stream_openai_response provider messages model w =
     (let params = openai_request_params messages model;
          w = send (OpenAIRequest params) w
      in case provider params of
           Inl e \<Rightarrow> (Inl e, w)
         | Inr (PyStream chunks ending) \<Rightarrow>
             (case openai_chunks chunks [] w of
                (Inl e, w) \<Rightarrow> (Inl e, w)
              | (Inr full_response, w) \<Rightarrow>
                  (case ending of
                     StreamRaises \<Rightarrow> (Inl ProviderError, w)
                   | EndOfStream \<Rightarrow> (Inr full_response, client_close w))))"

section \<open>Message Normalizer and the Claude strategy\<close>

text \<open>
  \<^verbatim>\<open>stream_claude_response\<close> (lines 89-152). Lines 104-132 translate the conversation;
  they are a function of their own here, \<open>translate_messages\<close>.
\<close>

text \<open>
  \<^verbatim>\<open>xs[0]\<close>: the first element of a list, the first character of a string; a
  dictionary with string keys has no key \<open>0\<close>.
\<close>

definition getitem0 :: "heap \<Rightarrow> pyval \<Rightarrow> pyerror + pyval" where
  "getitem0 h obj =
     (case obj of
        VRef a \<Rightarrow>
          (case lookup h a of
             None \<Rightarrow> Inl Unmodelled
           | Some (OList []) \<Rightarrow> Inl IndexError
           | Some (OList (x # xs)) \<Rightarrow> Inr x
           | Some (ODict kvs) \<Rightarrow> Inl KeyError)
      | VStr [] \<Rightarrow> Inl IndexError
      | VStr (c # cs) \<Rightarrow> Inr (VStr [c])
      | _ \<Rightarrow> Inl TypeError)"

text \<open>\<^verbatim>\<open>obj.get(key)\<close>: only a dictionary has the method.\<close>

definition dict_get :: "heap \<Rightarrow> pyval \<Rightarrow> string \<Rightarrow> pyerror + pyval" where
  "dict_get h obj key =
     (case obj of
        VRef a \<Rightarrow>
          (case lookup h a of
             None \<Rightarrow> Inl Unmodelled
           | Some (OList xs) \<Rightarrow> Inl AttributeError
           | Some (ODict kvs) \<Rightarrow>
               Inr (case map_of kvs key of None \<Rightarrow> VNone | Some v \<Rightarrow> v))
      | _ \<Rightarrow> Inl AttributeError)"

text \<open>
  \<^verbatim>\<open>dict(message)\<close>: a new dictionary with the entries of \<open>message\<close>. The declared
  type of a message is a dictionary. Of the other values, \<^verbatim>\<open>None\<close>, a boolean and a
  number are not iterable, an empty string or list gives an empty dictionary and the
  characters of a non-empty string are no key/value pairs; for a non-empty list Python
  reads its elements as pairs, which is not modelled.
\<close>

definition dict_copy :: "pyval \<Rightarrow> heap \<Rightarrow> (pyerror + pyval) \<times> heap" where
  "dict_copy message h =
     (case message of
        VRef a \<Rightarrow>
          (case lookup h a of
             None \<Rightarrow> (Inl Unmodelled, h)
           | Some (ODict kvs) \<Rightarrow> (Inr (VRef (length h)), h @ [ODict kvs])
           | Some (OList []) \<Rightarrow> (Inr (VRef (length h)), h @ [ODict []])
           | Some (OList (x # xs)) \<Rightarrow> (Inl Unmodelled, h))
      | VStr [] \<Rightarrow> (Inr (VRef (length h)), h @ [ODict []])
      | VStr (c # cs) \<Rightarrow> (Inl ValueError, h)
      | _ \<Rightarrow> (Inl TypeError, h))"

text \<open>The comprehension of line 108, over the elements of the slice.\<close>

fun dict_copies :: "pyval list \<Rightarrow> heap \<Rightarrow> (pyerror + pyval list) \<times> heap" where
  "dict_copies [] h = (Inr [], h)"
| "dict_copies (message # rest) h =
     (case dict_copy message h of
        (Inl e, h) \<Rightarrow> (Inl e, h)
      | (Inr d, h) \<Rightarrow>
          (case dict_copies rest h of
             (Inl e, h) \<Rightarrow> (Inl e, h)
           | (Inr ds, h) \<Rightarrow> (Inr (d # ds), h)))"

text \<open>
  \<^verbatim>\<open>process_image\<close> is not part of this file: it is a parameter of the model, a
  function from the data URL to the media type and the base64 data (two strings, as
  its callers unpack them), or to the exception it raises, which may be any.
\<close>

type_synonym image_processor = "pyval \<Rightarrow> pyerror + string \<times> string"

text \<open>The dictionary display of lines 128-132.\<close>

definition source_dict :: "string \<Rightarrow> string \<Rightarrow> pyobj" where
  "source_dict media_type base64_data =
     ODict [(''type'', VStr ''base64''), (''media_type'', VStr media_type),
            (''data'', VStr base64_data)]"

text \<open>The body of the inner loop, lines 114-132, for one \<open>content\<close>.\<close>

definition rewrite_content :: "image_processor \<Rightarrow> pyval \<Rightarrow> heap \<Rightarrow> (pyerror + unit) \<times> heap" where
  "rewrite_content process_image content h =
     (case getitem h content ''type'' of
        Inl e \<Rightarrow> (Inl e, h)
      | Inr t \<Rightarrow>
          if t = VStr ''image_url'' then
            (case setitem content ''type'' (VStr ''image'') h of
               Inl e \<Rightarrow> (Inl e, h)
             | Inr h \<Rightarrow>
                 (case getitem h content ''image_url'' of
                    Inl e \<Rightarrow> (Inl e, h)
                  | Inr image_url \<Rightarrow>
                      (case getitem h image_url ''url'' of
                         Inl e \<Rightarrow> (Inl e, h)
                       | Inr image_data_url \<Rightarrow>
                           (case process_image image_data_url of
                              Inl e \<Rightarrow> (Inl e, h)
                            | Inr (media_type, base64_data) \<Rightarrow>
                                (case delitem content ''image_url'' h of
                                   Inl e \<Rightarrow> (Inl e, h)
                                 | Inr h \<Rightarrow>
                                     (case setitem content ''source'' (VRef (length h))
                                             (h @ [source_dict media_type base64_data]) of
                                        Inl e \<Rightarrow> (Inl e, h)
                                      | Inr h \<Rightarrow> (Inr (), h)))))))
          else (Inr (), h))"

text \<open>
  The inner loop, line 113, over the elements of the list. The body changes
  dictionaries only, so the elements are those the list had when the loop began.
\<close>

fun rewrite_contents ::
  "image_processor \<Rightarrow> pyval list \<Rightarrow> heap \<Rightarrow> (pyerror + unit) \<times> heap" where
  "rewrite_contents process_image [] h = (Inr (), h)"
| "rewrite_contents process_image (content # rest) h =
     (case rewrite_content process_image content h of
        (Inl e, h) \<Rightarrow> (Inl e, h)
      | (Inr u, h) \<Rightarrow> rewrite_contents process_image rest h)"

text \<open>The body of the outer loop, lines 110-132, for one \<open>message\<close>.\<close>

definition rewrite_message :: "image_processor \<Rightarrow> pyval \<Rightarrow> heap \<Rightarrow> (pyerror + unit) \<times> heap" where
  "rewrite_message process_image message h =
     (case getitem h message ''content'' of
        Inl e \<Rightarrow> (Inl e, h)
      | Inr c \<Rightarrow>
          if \<not> is_list h c then (Inr (), h)
          else rewrite_contents process_image (list_items h c) h)"

text \<open>The outer loop, line 109.\<close>

fun rewrite_messages ::
  "image_processor \<Rightarrow> pyval list \<Rightarrow> heap \<Rightarrow> (pyerror + unit) \<times> heap" where
  "rewrite_messages process_image [] h = (Inr (), h)"
| "rewrite_messages process_image (message # rest) h =
     (case rewrite_message process_image message h of
        (Inl e, h) \<Rightarrow> (Inl e, h)
      | (Inr u, h) \<Rightarrow> rewrite_messages process_image rest h)"

text \<open>
  Lines 104-132: the system prompt and the reference to \<^verbatim>\<open>claude_messages\<close>, with
  the store after the translation. When \<^verbatim>\<open>deepcopy\<close> raises, the unfinished copy is
  garbage and the store is the one before the call. Line 108 is reached only with a
  list for \<^verbatim>\<open>cloned_messages\<close>: for every other value line 107 has raised.
\<close>

definition translate_messages ::
  "nat \<Rightarrow> image_processor \<Rightarrow> pyval \<Rightarrow> heap \<Rightarrow> (pyerror + pyval \<times> pyval) \<times> heap" where
  "translate_messages recursion_limit process_image messages h =
     (case deepcopy recursion_limit messages (h, Map.empty) of
        Inl e \<Rightarrow> (Inl e, h)
      | Inr (cloned_messages, h, memo) \<Rightarrow>
          (case getitem0 h cloned_messages of
             Inl e \<Rightarrow> (Inl e, h)
           | Inr first \<Rightarrow>
               (case dict_get h first ''content'' of
                  Inl e \<Rightarrow> (Inl e, h)
                | Inr system_prompt \<Rightarrow>
                    (case dict_copies (drop 1 (list_items h cloned_messages)) h of
                       (Inl e, h) \<Rightarrow> (Inl e, h)
                     | (Inr ds, h) \<Rightarrow>
                         (case rewrite_messages process_image ds (h @ [OList ds]) of
                            (Inl e, h') \<Rightarrow> (Inl e, h')
                          | (Inr u, h') \<Rightarrow> (Inr (system_prompt, VRef (length h)), h'))))))"

text \<open>The parameters of the request of lines 135-141.\<close>

definition claude_request_params :: "Llm \<Rightarrow> pyval \<Rightarrow> pyval \<Rightarrow> claude_params" where
  "claude_request_params model system_prompt claude_messages =
     \<lparr>cp_model = Llm_value model, cp_max_tokens = 8192, cp_temperature = 0,
      cp_system = system_prompt, cp_messages = claude_messages,
      cp_extra_headers = [(''anthropic-beta'', ''max-tokens-3-5-sonnet-2024-07-15'')]\<rparr>"

text \<open>Lines 143-144.\<close>

fun claude_text_stream :: "string list \<Rightarrow> world \<Rightarrow> world" where
  "claude_text_stream [] w = w"
| "claude_text_stream (text # rest) w = claude_text_stream rest (callback text w)"

definition stream_claude_response ::
  "nat \<Rightarrow> image_processor \<Rightarrow> claude_provider \<Rightarrow> pyval \<Rightarrow> Llm \<Rightarrow> world \<Rightarrow>
     (pyerror + string) \<times> world" where
  "stream_claude_response recursion_limit process_image provider messages model w =
     (case translate_messages recursion_limit process_image messages (w_heap w) of
        (Inl e, h) \<Rightarrow> (Inl e, w\<lparr>w_heap := h\<rparr>)
      | (Inr (system_prompt, claude_messages), h) \<Rightarrow>
          (let w = w\<lparr>w_heap := h\<rparr>;
               params = claude_request_params model system_prompt claude_messages;
               reply = provider (length (w_calls w)) params;
               w = send (ClaudeRequest params) w
           in case reply_text_stream reply of
                PyStream texts ending \<Rightarrow>
                  (let w = claude_text_stream texts w
                   in case ending of
                        StreamRaises \<Rightarrow> (Inl ProviderError, w)
                      | EndOfStream \<Rightarrow>
                          (case reply_final reply of
                             FinalRaises \<Rightarrow> (Inl ProviderError, w)
                           | FinalNone \<Rightarrow> (Inl AttributeError, client_close w)
                           | FinalMessage response \<Rightarrow>
                               (content0_text response, client_close w)))))"

section \<open>Multi-Pass Refinement Loop\<close>

text \<open>
  \<^verbatim>\<open>stream_claude_response_native\<close> (lines 155-241). The constants of lines 172-174
  and the instruction of line 224.
\<close>

definition max_passes :: nat where
  "max_passes = 2"

definition prefix :: string where
  "prefix = ''<thinking>''"

definition improve_instruction :: string where
  "improve_instruction =
     ''You'' @ [CHR 0x27] @ ''ve done a good job with a first draft. Improve this further based on the original instructions so that the app is fully functional and looks like the original video of the app we'' @ [CHR 0x27] @ ''re trying to replicate.''"

text \<open>
  \<^verbatim>\<open>x + [items]\<close>: a new list when \<open>x\<close> is a list, \<^verbatim>\<open>TypeError\<close> for every other
  value of the store. The list display on the right is garbage afterwards and gets no
  address.
\<close>

definition list_add :: "pyval \<Rightarrow> pyval list \<Rightarrow> heap \<Rightarrow> (pyerror + pyval) \<times> heap" where
  "list_add x items h =
     (case x of
        VRef a \<Rightarrow>
          (case lookup h a of
             None \<Rightarrow> (Inl Unmodelled, h)
           | Some (OList xs) \<Rightarrow> (Inr (VRef (length h)), h @ [OList (xs @ items)])
           | Some (ODict kvs) \<Rightarrow> (Inl TypeError, h))
      | _ \<Rightarrow> (Inl TypeError, h))"

text \<open>
  \<^verbatim>\<open>x += [items]\<close>: a list is extended in place, so every holder of the list sees
  the new elements; every other value of the store has no in-place addition with a
  list and raises \<^verbatim>\<open>TypeError\<close>.
\<close>

definition list_iadd :: "pyval \<Rightarrow> pyval list \<Rightarrow> heap \<Rightarrow> pyerror + heap" where
  "list_iadd x items h =
     (case x of
        VRef a \<Rightarrow>
          (case lookup h a of
             None \<Rightarrow> Inl Unmodelled
           | Some (OList xs) \<Rightarrow> Inr (h[a := OList (xs @ items)])
           | Some (ODict kvs) \<Rightarrow> Inl TypeError)
      | _ \<Rightarrow> Inl TypeError)"

text \<open>\<^verbatim>\<open>str(n)\<close> for a natural number, and \<^verbatim>\<open>s.split(sep)[0]\<close> for a non-empty \<open>sep\<close>.\<close>

fun str_of_nat :: "nat \<Rightarrow> string" where
  "str_of_nat n =
     (if n < 10 then [char_of (48 + n)]
      else str_of_nat (n div 10) @ [char_of (48 + n mod 10)])"

fun split_first :: "string \<Rightarrow> string \<Rightarrow> string" where
  "split_first sep [] = []"
| "split_first sep (c # cs) =
     (if take (length sep) (c # cs) = sep then [] else c # split_first sep cs)"

text \<open>The local variables that one pass hands to the next.\<close>

record native_locals =
  l_response :: "Message option"
  l_full_stream :: string

text \<open>The dictionary display \<^verbatim>\<open>{"role": role, "content": content}\<close>.\<close>

definition turn :: "string \<Rightarrow> string \<Rightarrow> pyobj" where
  "turn role content = ODict [(''role'', VStr role), (''content'', VStr content)]"

text \<open>Lines 185-189.\<close>

definition messages_to_send :: "bool \<Rightarrow> pyval \<Rightarrow> heap \<Rightarrow> (pyerror + pyval) \<times> heap" where
  "messages_to_send include_thinking messages h =
     (if include_thinking
      then list_add messages [VRef (length h)] (h @ [turn ''assistant'' prefix])
      else (Inr messages, h))"

text \<open>The parameters of the request of lines 193-198.\<close>

definition native_params :: "Llm \<Rightarrow> pyval \<Rightarrow> pyval \<Rightarrow> claude_params" where
  "native_params model system_prompt to_send =
     \<lparr>cp_model = Llm_value model, cp_max_tokens = 4096, cp_temperature = 0,
      cp_system = system_prompt, cp_messages = to_send, cp_extra_headers = []\<rparr>"

text \<open>Lines 200-203.\<close>

fun native_text_stream :: "string list \<Rightarrow> string \<Rightarrow> world \<Rightarrow> string \<times> world" where
  "native_text_stream [] full_stream w = (full_stream, w)"
| "native_text_stream (text # rest) full_stream w =
     native_text_stream rest (full_stream @ text) (callback text w)"

text \<open>Lines 209-217; \<open>n\<close> is \<^verbatim>\<open>current_pass_num - 1\<close>.\<close>

definition debug_pass ::
  "bool \<Rightarrow> (string \<Rightarrow> string) \<Rightarrow> nat \<Rightarrow> string \<Rightarrow> world \<Rightarrow> world" where
  "debug_pass IS_DEBUG_ENABLED extract_html_content n response_text w =
     (if IS_DEBUG_ENABLED
      then write_to_file (''thinking_pass_'' @ str_of_nat n @ ''.txt'')
             (split_first ''</thinking>'' response_text)
             (write_to_file (''pass_'' @ str_of_nat n @ ''.html'')
                (extract_html_content response_text) w)
      else w)"

text \<open>
  The body of the loop after line 182 (lines 184-230); \<open>current_pass_num\<close> is the
  value after the increment of line 182.
\<close>

definition native_pass ::
  "claude_provider \<Rightarrow> bool \<Rightarrow> (string \<Rightarrow> string) \<Rightarrow> pyval \<Rightarrow> pyval \<Rightarrow> bool \<Rightarrow> Llm \<Rightarrow>
     nat \<Rightarrow> native_locals \<Rightarrow> world \<Rightarrow> (pyerror + native_locals) \<times> world" where
  "native_pass provider IS_DEBUG_ENABLED extract_html_content system_prompt messages
       include_thinking model current_pass_num l w =
     (case messages_to_send include_thinking messages (w_heap w) of
        (Inl e, h) \<Rightarrow> (Inl e, w\<lparr>w_heap := h\<rparr>)
      | (Inr to_send, h) \<Rightarrow>
          (let w = w\<lparr>w_heap := h\<rparr>;
               params = native_params model system_prompt to_send;
               reply = provider (length (w_calls w)) params;
               w = send (ClaudeRequest params) w
           in case reply_text_stream reply of
                PyStream texts ending \<Rightarrow>
                  (case native_text_stream texts (l_full_stream l) w of
                     (full_stream', w) \<Rightarrow>
                       (case ending of
                          StreamRaises \<Rightarrow> (Inl ProviderError, w)
                        | EndOfStream \<Rightarrow>
                            (case reply_final reply of
                               FinalRaises \<Rightarrow> (Inl ProviderError, w)
                             | FinalNone \<Rightarrow> (Inl AttributeError, w)
                             | FinalMessage response' \<Rightarrow>
                                 (case content0_text response' of
                                    Inl e \<Rightarrow> (Inl e, w)
                                  | Inr response_text \<Rightarrow>
                                      (let w = debug_pass IS_DEBUG_ENABLED extract_html_content
                                                 (current_pass_num - 1) response_text w;
                                           h = w_heap w;
                                           h' = h @ [turn ''assistant'' (prefix @ response_text),
                                                     turn ''user'' improve_instruction]
                                       in case list_iadd messages
                                                 [VRef (length h), VRef (Suc (length h))] h' of
                                            Inl e \<Rightarrow> (Inl e, w\<lparr>w_heap := h'\<rparr>)
                                          | Inr h'' \<Rightarrow>
                                              (Inr \<lparr>l_response = Some response',
                                                    l_full_stream = full_stream'\<rparr>,
                                               w\<lparr>w_heap := h''\<rparr>))))))))"

text \<open>The loop of lines 181-230.\<close>

function native_passes ::
  "claude_provider \<Rightarrow> bool \<Rightarrow> (string \<Rightarrow> string) \<Rightarrow> pyval \<Rightarrow> pyval \<Rightarrow> bool \<Rightarrow> Llm \<Rightarrow>
     nat \<Rightarrow> native_locals \<Rightarrow> world \<Rightarrow> (pyerror + native_locals) \<times> world" where
  "native_passes provider IS_DEBUG_ENABLED extract_html_content system_prompt messages
       include_thinking model current_pass_num l w =
     (if current_pass_num \<le> max_passes
      then (case native_pass provider IS_DEBUG_ENABLED extract_html_content system_prompt
                   messages include_thinking model (current_pass_num + 1) l w of
              (Inl e, w') \<Rightarrow> (Inl e, w')
            | (Inr l', w') \<Rightarrow>
                native_passes provider IS_DEBUG_ENABLED extract_html_content system_prompt
                  messages include_thinking model (current_pass_num + 1) l' w')
      else (Inr l, w))"
  by pat_completeness auto
termination
  by (relation "measure (\<lambda>(provider, dbg, ex, sp, messages, it, model, n, l, w).
        Suc max_passes - n)") auto

declare native_passes.simps [simp del]

text \<open>The function, with the lines after the loop (232-241).\<close>

definition stream_claude_response_native ::
  "claude_provider \<Rightarrow> bool \<Rightarrow> (string \<Rightarrow> string) \<Rightarrow> pyval \<Rightarrow> pyval \<Rightarrow> bool \<Rightarrow> Llm \<Rightarrow>
     world \<Rightarrow> (pyerror + string) \<times> world" where
  "stream_claude_response_native provider IS_DEBUG_ENABLED extract_html_content system_prompt
       messages include_thinking model w =
     (case native_passes provider IS_DEBUG_ENABLED extract_html_content system_prompt
             messages include_thinking model 1 \<lparr>l_response = None, l_full_stream = []\<rparr> w of
        (Inl e, w) \<Rightarrow> (Inl e, w)
      | (Inr l, w) \<Rightarrow>
          (let w = client_close w;
               w = (if IS_DEBUG_ENABLED
                    then write_to_file ''full_stream.txt'' (l_full_stream l) w else w)
           in case l_response l of
                None \<Rightarrow> (Inl NoHtmlResponse, w)
              | Some response' \<Rightarrow> (content0_text response', w)))"

text \<open>
  For the statements about the passes: the final text of a reply, when the provider
  completes it (the text stream ends, a final message is returned and its first
  content block is a text block).
\<close>

definition reply_text :: "claude_reply \<Rightarrow> string option" where
  "reply_text reply =
     (case reply_text_stream reply of
        PyStream texts StreamRaises \<Rightarrow> None
      | PyStream texts EndOfStream \<Rightarrow>
          (case reply_final reply of
             FinalMessage m \<Rightarrow>
               (case msg_content m of TextBlock t # blocks \<Rightarrow> Some t | _ \<Rightarrow> None)
           | FinalNone \<Rightarrow> None
           | FinalRaises \<Rightarrow> None))"

text \<open>
  For the statement about the stream: the delta text of a chunk is the content of the
  delta of its first choice, empty when any of the three is missing; the fragments of
  a sequence of chunks are its non-empty delta texts, in the order of arrival.
\<close>

definition delta_text :: "ChatCompletionChunk \<Rightarrow> string" where
  "delta_text chunk =
     (case chunk_choices chunk of
        [] \<Rightarrow> []
      | choice # _ \<Rightarrow>
          (case choice_delta choice of
             None \<Rightarrow> []
           | Some delta \<Rightarrow> (case delta_content delta of None \<Rightarrow> [] | Some t \<Rightarrow> t)))"

definition fragments :: "ChatCompletionChunk list \<Rightarrow> string list" where
  "fragments chunks = filter (\<lambda>t. t \<noteq> []) (map delta_text chunks)"

section \<open>Notions for the statements about the store\<close>

text \<open>
  A value is fresh from \<open>n\<close> when it is no reference to an object below address \<open>n\<close>;
  an object is fresh from \<open>n\<close> when all the values it holds are; a store is separate
  from \<open>n\<close> when all its objects from address \<open>n\<close> on are: then no path from a new
  object leads to an old one. A state of \<^verbatim>\<open>deepcopy\<close> is good when its store is separate
  and its memo maps to new objects only.
\<close>

definition fresh_val :: "nat \<Rightarrow> pyval \<Rightarrow> bool" where
  "fresh_val n v = (case v of VRef a \<Rightarrow> n \<le> a | _ \<Rightarrow> True)"

definition fresh_obj :: "nat \<Rightarrow> pyobj \<Rightarrow> bool" where
  "fresh_obj n obj =
     (case obj of
        OList xs \<Rightarrow> list_all (fresh_val n) xs
      | ODict kvs \<Rightarrow> list_all (\<lambda>kv. fresh_val n (snd kv)) kvs)"

definition separate :: "nat \<Rightarrow> heap \<Rightarrow> bool" where
  "separate n h = (\<forall>a. n \<le> a \<and> a < length h \<longrightarrow> fresh_obj n (h ! a))"

definition good :: "nat \<Rightarrow> heap \<times> memo \<Rightarrow> bool" where
  "good n s = (n \<le> length (fst s) \<and> separate n (fst s) \<and> (\<forall>a y. snd s a = Some y \<longrightarrow> n \<le> y))"

text \<open>
  A store grows from \<open>h\<close> to \<open>h'\<close> above \<open>n\<close> when \<open>h'\<close> is no shorter, agrees
  with \<open>h\<close> below \<open>n\<close> and is separate from \<open>n\<close>.
\<close>

definition grows :: "nat \<Rightarrow> heap \<Rightarrow> heap \<Rightarrow> bool" where
  "grows n h h' = (length h \<le> length h' \<and> take n h' = take n h \<and> separate n h')"

text \<open>
  For the statement about the roles: a value is plain when it is no reference to an
  object. Two stores are the same but for the roles when they hold the same objects at
  the same addresses, except that a dictionary may have another plain value under the
  key \<^verbatim>\<open>role\<close>.
\<close>

definition plain :: "pyval \<Rightarrow> bool" where
  "plain v = (case v of VRef a \<Rightarrow> False | _ \<Rightarrow> True)"

definition same_but_role_entry :: "string \<times> pyval \<Rightarrow> string \<times> pyval \<Rightarrow> bool" where
  "same_but_role_entry kv kv' =
     (fst kv = fst kv'
      \<and> (snd kv = snd kv' \<or> fst kv = ''role'' \<and> plain (snd kv) \<and> plain (snd kv')))"

fun same_but_role_obj :: "pyobj \<Rightarrow> pyobj \<Rightarrow> bool" where
  "same_but_role_obj (OList xs) (OList ys) = (xs = ys)"
| "same_but_role_obj (ODict kvs) (ODict kvs') = list_all2 same_but_role_entry kvs kvs'"
| "same_but_role_obj (OList xs) (ODict kvs') = False"
| "same_but_role_obj (ODict kvs) (OList ys) = False"

definition same_but_role :: "heap \<Rightarrow> heap \<Rightarrow> bool" where
  "same_but_role h h' = list_all2 same_but_role_obj h h'"

text \<open>
  For the statements about the rewriting loop, relative to the store \<open>h0\<close> in which
  the loop starts. The object at an address is rewritten when it was an image part in
  \<open>h0\<close> and now is what lines 115-132 make of it. The invariant of the loop: every
  object of \<open>h0\<close> is as it was or rewritten, and every newer object is a dictionary of
  lines 128-132. A part is settled when its type is not \<^verbatim>\<open>image_url\<close>.
\<close>

definition rewritten :: "image_processor \<Rightarrow> heap \<Rightarrow> heap \<Rightarrow> nat \<Rightarrow> bool" where
  "rewritten ip h0 h a =
     (\<exists>kvs iu url mt b s.
        lookup h0 a = Some (ODict kvs)
      \<and> map_of kvs ''type'' = Some (VStr ''image_url'')
      \<and> map_of kvs ''image_url'' = Some iu
      \<and> getitem h0 iu ''url'' = Inr url
      \<and> ip url = Inr (mt, b)
      \<and> length h0 \<le> s
      \<and> lookup h s = Some (source_dict mt b)
      \<and> lookup h a = Some (ODict (AList.update ''source'' (VRef s)
                               (AList.delete ''image_url''
                                  (AList.update ''type'' (VStr ''image'') kvs)))))"

definition rewrite_inv :: "image_processor \<Rightarrow> heap \<Rightarrow> heap \<Rightarrow> bool" where
  "rewrite_inv ip h0 h =
     (length h0 \<le> length h
      \<and> (\<forall>a < length h0. h ! a = h0 ! a \<or> rewritten ip h0 h a)
      \<and> (\<forall>s. length h0 \<le> s \<and> s < length h \<longrightarrow> (\<exists>mt b. h ! s = source_dict mt b)))"

definition settled :: "heap \<Rightarrow> pyval \<Rightarrow> bool" where
  "settled h p = (getitem h p ''type'' \<noteq> Inr (VStr ''image_url''))"

section \<open>Sample inputs\<close>

text \<open>
  A provider that completes every request, answering the first with the text
  \<^verbatim>\<open>DRAFT\<close> and every later one with \<^verbatim>\<open>FINAL\<close>, a provider whose stream breaks
  before any final message, a provider that completes the first request only, and a
  world whose store holds the one-turn conversation
  \<^verbatim>\<open>[{"role": "user", "content": "Make a button"}]\<close> at address 0. For
  \<^verbatim>\<open>process_image\<close>, a function that knows one data URL.
\<close>

definition sample_provider :: claude_provider where
  "sample_provider n params =
     \<lparr>reply_text_stream = PyStream [''<html>'', ''</html>''] EndOfStream,
      reply_final = FinalMessage
        \<lparr>msg_content = [TextBlock (if n = 0 then ''DRAFT'' else ''FINAL'')],
         usage_input_tokens = 10, usage_output_tokens = 2\<rparr>\<rparr>"

definition failing_provider :: claude_provider where
  "failing_provider n params =
     \<lparr>reply_text_stream = PyStream [''<ht''] StreamRaises, reply_final = FinalRaises\<rparr>"

definition fails_second_provider :: claude_provider where
  "fails_second_provider n params =
     (if n = 0 then sample_provider n params else failing_provider n params)"

definition sample_images :: image_processor where
  "sample_images url =
     (if url = VStr ''data:image/png;base64,iVBOR'' then Inr (''image/png'', ''iVBOR'')
      else Inl ImageError)"

text \<open>
  A world whose store holds, at address 0, the conversation
  \<^verbatim>\<open>[{"role": "system", "content": "You write HTML."},
    {"role": "user", "content": [{"type": "text", "text": "Make a button"},
      {"type": "image_url", "image_url": {"url": "data:image/png;base64,iVBOR"}}]}]\<close>,
  at address 7 the empty conversation, at address 8 a conversation whose only
  message has the role \<^verbatim>\<open>user\<close>, and at address 10 the conversation of that
  message and the second message of the first conversation.
\<close>

definition sample_chat :: world where
  "sample_chat =
     \<lparr>w_heap = [OList [VRef 1, VRef 2],
                turn ''system'' ''You write HTML.'',
                ODict [(''role'', VStr ''user''), (''content'', VRef 3)],
                OList [VRef 4, VRef 5],
                ODict [(''type'', VStr ''text''), (''text'', VStr ''Make a button'')],
                ODict [(''type'', VStr ''image_url''), (''image_url'', VRef 6)],
                ODict [(''url'', VStr ''data:image/png;base64,iVBOR'')],
                OList [],
                OList [VRef 9],
                turn ''user'' ''Make a button'',
                OList [VRef 9, VRef 2]],
      w_calls = [], w_sink = [], w_closed = 0, w_debug = []\<rparr>"

definition sample_world :: world where
  "sample_world =
     \<lparr>w_heap = [OList [VRef 1], turn ''user'' ''Make a button''],
      w_calls = [], w_sink = [], w_closed = 0, w_debug = []\<rparr>"

section \<open>Model Registry: properties\<close>

lemma Llm_call_value: "Llm_call (Llm_value m) = Inr m"
  by (cases m) (simp_all add: Llm_call_def Llm_members_def)

lemma Llm_call_Inr: "Llm_call s = Inr m \<Longrightarrow> s = Llm_value m"
  unfolding Llm_call_def
  by (auto split: option.splits dest: find_Some_iff [THEN iffD1])

lemma Llm_call_unknown:
  assumes "\<forall>m. Llm_value m \<noteq> s"
  shows "Llm_call s = Inl ValueError"
proof (cases "Llm_call s")
  case (Inl e)
  then show ?thesis by (simp add: Llm_call_def split: option.splits)
next
  case (Inr m)
  with assms Llm_call_Inr show ?thesis by blast
qed

lemma Llm_value_not_alias:
  "Llm_value m \<noteq> ''gpt_4_vision''" "Llm_value m \<noteq> ''claude_3_sonnet''"
  by (cases m; simp)+

text \<open>
  C5. For every string, \<^verbatim>\<open>convert_frontend_str_to_llm\<close> returns the member mapped from
  one of the two legacy short names, or the member whose value is literally the
  string, and raises \<^verbatim>\<open>ValueError\<close> (the spec's UnknownModelError) for every other
  string. The function takes a string and returns a member or an error: it has no
  store, no provider and no other state to touch.
\<close>

theorem convert_frontend_str_to_llm_resolution:
  "convert_frontend_str_to_llm ''gpt_4_vision'' = Inr GPT_4_VISION
   \<and> convert_frontend_str_to_llm ''claude_3_sonnet'' = Inr CLAUDE_3_SONNET
   \<and> (\<forall>m. convert_frontend_str_to_llm (Llm_value m) = Inr m)
   \<and> (\<forall>s. s \<noteq> ''gpt_4_vision'' \<and> s \<noteq> ''claude_3_sonnet'' \<and> (\<forall>m. Llm_value m \<noteq> s)
          \<longrightarrow> convert_frontend_str_to_llm s = Inl ValueError)
   \<and> inj Llm_value"
proof -
  have legacy: "convert_frontend_str_to_llm ''gpt_4_vision'' = Inr GPT_4_VISION"
    "convert_frontend_str_to_llm ''claude_3_sonnet'' = Inr CLAUDE_3_SONNET"
    by (simp_all add: convert_frontend_str_to_llm_def)
  have canonical: "convert_frontend_str_to_llm (Llm_value m) = Inr m" for m
    by (simp add: convert_frontend_str_to_llm_def Llm_value_not_alias Llm_call_value)
  have unknown: "convert_frontend_str_to_llm s = Inl ValueError"
    if "s \<noteq> ''gpt_4_vision''" "s \<noteq> ''claude_3_sonnet''" "\<forall>m. Llm_value m \<noteq> s" for s
    using that by (simp add: convert_frontend_str_to_llm_def Llm_call_unknown)
  have "inj Llm_value"
  proof (rule injI)
    fix a b assume "Llm_value a = Llm_value b"
    then have "Llm_call (Llm_value a) = Llm_call (Llm_value b)" by simp
    then show "a = b" by (simp add: Llm_call_value)
  qed
  with legacy canonical unknown show ?thesis by blast
qed

theorem convert_frontend_str_to_llm_resolution_witness:
  "convert_frontend_str_to_llm ''not_a_real_model'' = Inl ValueError
   \<and> convert_frontend_str_to_llm ''gpt-4o-2024-08-06'' = Inr GPT_4O_2024_08_06"
proof -
  note r = convert_frontend_str_to_llm_resolution
  note canonical = r [THEN conjunct2, THEN conjunct2, THEN conjunct1, THEN spec]
  note unknown = r [THEN conjunct2, THEN conjunct2, THEN conjunct2, THEN conjunct1,
    THEN spec, THEN mp]
  have none: "\<forall>m. Llm_value m \<noteq> ''not_a_real_model''"
  proof
    fix m show "Llm_value m \<noteq> ''not_a_real_model''" by (cases m) simp_all
  qed
  have "convert_frontend_str_to_llm ''not_a_real_model'' = Inl ValueError"
    by (rule unknown) (simp add: none)
  moreover have "convert_frontend_str_to_llm ''gpt-4o-2024-08-06'' = Inr GPT_4O_2024_08_06"
    using canonical [of GPT_4O_2024_08_06] by simp
  ultimately show ?thesis by (rule conjI)
qed

section \<open>The OpenAI-compatible strategy: properties\<close>

lemma chunk_content_delta_text:
  "chunk_content chunk = (if delta_text chunk = [] then None else Some (delta_text chunk))"
  by (simp add: chunk_content_def delta_text_def split: list.splits option.splits)

lemma openai_chunks_fragments:
  "openai_chunks (map ChunkItem chunks) full_response w =
     (Inr (full_response @ concat (fragments chunks)),
      w\<lparr>w_sink := w_sink w @ fragments chunks\<rparr>)"
proof (induction chunks arbitrary: full_response w)
  case Nil
  show ?case by (simp add: fragments_def)
next
  case (Cons chunk chunks)
  have tl: "fragments (chunk # chunks) =
      (if delta_text chunk = [] then fragments chunks else delta_text chunk # fragments chunks)"
    by (simp add: fragments_def)
  show ?case
    by (simp add: chunk_content_delta_text Cons.IH tl callback_def)
qed

text \<open>
  C8. For every sequence of chunks that the stream yields before it ends, the callback
  is called once for each chunk with a non-empty delta text, in the order of arrival,
  and with nothing else; the string returned is the concatenation of exactly these
  fragments.
\<close>

theorem stream_openai_response_fragments:
  "stream_openai_response (\<lambda>params. Inr (PyStream (map ChunkItem chunks) EndOfStream))
       messages model w =
     (Inr (concat (fragments chunks)),
      client_close
        ((send (OpenAIRequest (openai_request_params messages model)) w)
           \<lparr>w_sink := w_sink w @ fragments chunks\<rparr>))"
  by (simp add: stream_openai_response_def openai_chunks_fragments send_def)

lemma openai_chunks_calls: "w_calls (snd (openai_chunks items full_response w)) = w_calls w"
  by (induction items full_response w rule: openai_chunks.induct)
     (simp_all add: callback_def split: option.splits)

text \<open>
  C9. The request that \<^verbatim>\<open>stream_openai_response\<close> sends carries \<^verbatim>\<open>max_tokens\<close> 4096
  exactly for GPT-4 Vision, GPT-4 Turbo 2024-04-09 and GPT-4o 2024-05-13, 16384 exactly
  for GPT-4o 2024-11-20, and no \<^verbatim>\<open>max_tokens\<close> for any other model; its temperature
  is 0.0 and its timeout 600 for every model.
\<close>

theorem stream_openai_response_params:
  "\<exists>params.
     w_calls (snd (stream_openai_response provider messages model w)) =
       w_calls w @ [(OpenAIRequest params, w_heap w)]
     \<and> op_model params = Llm_value model
     \<and> op_max_tokens params =
         (if model \<in> {GPT_4_VISION, GPT_4_TURBO_2024_04_09, GPT_4O_2024_05_13} then Some 4096
          else if model = GPT_4O_2024_11_20 then Some 16384
          else None)
     \<and> op_temperature params = 0
     \<and> op_timeout params = 600"
proof -
  let ?params = "openai_request_params messages model"
  let ?w = "send (OpenAIRequest ?params) w"
  have sent: "w_calls ?w = w_calls w @ [(OpenAIRequest ?params, w_heap w)]"
    by (simp add: send_def)
  have "w_calls (snd (stream_openai_response provider messages model w)) = w_calls ?w"
  proof (cases "provider ?params")
    case (Inl e)
    then show ?thesis by (simp add: stream_openai_response_def Let_def)
  next
    case (Inr stream)
    obtain items ending where stream: "stream = PyStream items ending" by (cases stream)
    obtain r w' where run: "openai_chunks items [] ?w = (r, w')" by (cases "openai_chunks items [] ?w")
    have "w_calls w' = w_calls ?w" using openai_chunks_calls [of items "[]" ?w] run by simp
    then show ?thesis using Inr stream run
      by (simp add: stream_openai_response_def Let_def client_close_def
               split: sum.splits stream_end.splits)
  qed
  with sent have calls: "w_calls (snd (stream_openai_response provider messages model w)) =
      w_calls w @ [(OpenAIRequest ?params, w_heap w)]"
    by simp
  have fixed: "op_model ?params = Llm_value model"
    "op_temperature ?params = 0" "op_timeout ?params = 600"
    by (simp_all add: openai_request_params_def Let_def)
  have ceiling: "op_max_tokens ?params =
         (if model \<in> {GPT_4_VISION, GPT_4_TURBO_2024_04_09, GPT_4O_2024_05_13} then Some 4096
          else if model = GPT_4O_2024_11_20 then Some 16384
          else None)"
    by (cases model) (simp_all add: openai_request_params_def Let_def)
  show ?thesis
    by (rule exI [of _ ?params]) (intro conjI calls fixed ceiling)
qed

section \<open>The Multi-Pass Refinement Loop: properties\<close>

lemma native_passes_two:
  "native_passes P D E S M I model 1 l w =
     (case native_pass P D E S M I model 2 l w of
        (Inl e, w') \<Rightarrow> (Inl e, w')
      | (Inr l', w') \<Rightarrow>
          (case native_pass P D E S M I model 3 l' w' of
             (Inl e, w'') \<Rightarrow> (Inl e, w'')
           | (Inr l'', w'') \<Rightarrow> (Inr l'', w'')))"
proof -
  have three: "native_passes P D E S M I model (Suc (Suc (Suc 0))) l2 w2 = (Inr l2, w2)"
    for l2 w2
    by (subst native_passes.simps) (simp add: max_passes_def)
  have two: "native_passes P D E S M I model (Suc (Suc 0)) l1 w1 =
     (case native_pass P D E S M I model (Suc (Suc (Suc 0))) l1 w1 of
        (Inl e, w') \<Rightarrow> (Inl e, w')
      | (Inr l', w') \<Rightarrow> (Inr l', w'))" for l1 w1
    by (subst native_passes.simps) (simp add: max_passes_def three split: prod.splits sum.splits)
  show ?thesis
    by (subst native_passes.simps)
       (simp add: max_passes_def two eval_nat_numeral split: prod.splits sum.splits)
qed

lemma native_text_stream_world:
  "snd (native_text_stream texts fs w) = w\<lparr>w_sink := w_sink w @ texts\<rparr>"
  by (induction texts fs w rule: native_text_stream.induct) (simp_all add: callback_def)

lemma debug_pass_world:
  "w_heap (debug_pass D E n t w) = w_heap w" "w_calls (debug_pass D E n t w) = w_calls w"
  "w_sink (debug_pass D E n t w) = w_sink w" "w_closed (debug_pass D E n t w) = w_closed w"
  by (simp_all add: debug_pass_def write_to_file_def)


lemma list_iadd_Inr:
  "list_iadd x items h = Inr h' \<longleftrightarrow>
     (\<exists>r xs. x = VRef r \<and> lookup h r = Some (OList xs) \<and> h' = h[r := OList (xs @ items)])"
  by (auto simp: list_iadd_def split: pyval.splits option.splits pyobj.splits)

lemma messages_to_send_Inr:
  "messages_to_send I M h = (Inr to_send, h1) \<longleftrightarrow>
     (if I then \<exists>r xs. M = VRef r \<and> lookup h r = Some (OList xs)
                \<and> to_send = VRef (Suc (length h))
                \<and> h1 = h @ [turn ''assistant'' prefix, OList (xs @ [VRef (length h)])]
      else to_send = M \<and> h1 = h)"
  by (auto simp: messages_to_send_def list_add_def lookup_def nth_append turn_def
           split: pyval.splits option.splits pyobj.splits if_splits)

lemma reply_text_Some:
  "reply_text reply = Some t \<longleftrightarrow>
     (\<exists>texts m. reply_text_stream reply = PyStream texts EndOfStream
        \<and> reply_final reply = FinalMessage m \<and> content0_text m = Inr t)"
  by (auto simp: reply_text_def content0_text_def
           split: pystream.splits stream_end.splits final_message.splits list.splits
                  content_block.splits)

lemma native_pass_Inr:
  assumes "native_pass P D E S M I model n l w = (Inr l', w')"
  shows "\<exists>to_send h1 texts m t.
      messages_to_send I M (w_heap w) = (Inr to_send, h1)
    \<and> reply_text_stream (P (length (w_calls w)) (native_params model S to_send))
        = PyStream texts EndOfStream
    \<and> reply_final (P (length (w_calls w)) (native_params model S to_send)) = FinalMessage m
    \<and> content0_text m = Inr t
    \<and> l_response l' = Some m
    \<and> w_calls w' = w_calls w @ [(ClaudeRequest (native_params model S to_send), h1)]
    \<and> w_sink w' = w_sink w @ texts
    \<and> list_iadd M [VRef (length h1), VRef (Suc (length h1))]
         (h1 @ [turn ''assistant'' (prefix @ t), turn ''user'' improve_instruction])
        = Inr (w_heap w')"
  using assms
  unfolding native_pass_def Let_def
  by (auto split: prod.splits sum.splits pystream.splits stream_end.splits final_message.splits
           simp: send_def debug_pass_world
           dest!: arg_cong [where f = snd and x = "native_text_stream _ _ _"]
           simp: native_text_stream_world)

lemma native_pass_effect:
  assumes run: "native_pass P D E S (VRef r) I model n l w = (Inr l', w')"
    and list: "lookup (w_heap w) r = Some (OList xs)"
  shows "\<exists>to_send h1 m t.
      length (w_heap w) \<le> length h1
    \<and> list_items h1 to_send = xs @ (if I then [VRef (length (w_heap w))] else [])
    \<and> (I \<longrightarrow> lookup h1 (length (w_heap w)) = Some (turn ''assistant'' prefix))
    \<and> (\<forall>a < length (w_heap w). lookup h1 a = lookup (w_heap w) a)
    \<and> w_calls w' = w_calls w @ [(ClaudeRequest (native_params model S to_send), h1)]
    \<and> reply_text (P (length (w_calls w)) (native_params model S to_send)) = Some t
    \<and> l_response l' = Some m \<and> content0_text m = Inr t
    \<and> w_heap w' = (h1 @ [turn ''assistant'' (prefix @ t), turn ''user'' improve_instruction])
                     [r := OList (xs @ [VRef (length h1), VRef (Suc (length h1))])]"
proof -
  from native_pass_Inr [OF run] obtain to_send h1 texts m t where
    mts: "messages_to_send I (VRef r) (w_heap w) = (Inr to_send, h1)"
    and stream: "reply_text_stream (P (length (w_calls w)) (native_params model S to_send))
        = PyStream texts EndOfStream"
    and final: "reply_final (P (length (w_calls w)) (native_params model S to_send)) = FinalMessage m"
    and ct: "content0_text m = Inr t"
    and resp: "l_response l' = Some m"
    and calls: "w_calls w' = w_calls w @ [(ClaudeRequest (native_params model S to_send), h1)]"
    and iadd: "list_iadd (VRef r) [VRef (length h1), VRef (Suc (length h1))]
         (h1 @ [turn ''assistant'' (prefix @ t), turn ''user'' improve_instruction])
        = Inr (w_heap w')"
    by blast
  from list have r: "r < length (w_heap w)" and at: "w_heap w ! r = OList xs"
    by (auto simp: lookup_def split: if_splits)
  from mts list have h1: "h1 = (if I then w_heap w @ [turn ''assistant'' prefix,
        OList (xs @ [VRef (length (w_heap w))])] else w_heap w)"
    and ts: "to_send = (if I then VRef (Suc (length (w_heap w))) else VRef r)"
    by (auto simp: messages_to_send_Inr split: if_splits)
  have len: "length (w_heap w) \<le> length h1" by (simp add: h1)
  have same: "\<forall>a < length (w_heap w). lookup h1 a = lookup (w_heap w) a"
    by (simp add: h1 lookup_def nth_append)
  have items: "list_items h1 to_send = xs @ (if I then [VRef (length (w_heap w))] else [])"
    using r at by (simp add: h1 ts list_items_def lookup_def nth_append)
  have pre: "I \<longrightarrow> lookup h1 (length (w_heap w)) = Some (turn ''assistant'' prefix)"
    by (simp add: h1 lookup_def nth_append)
  have "lookup (h1 @ [turn ''assistant'' (prefix @ t), turn ''user'' improve_instruction]) r
      = Some (OList xs)"
    using r at len by (simp add: h1 lookup_def nth_append)
  with iadd have heap: "w_heap w' =
      (h1 @ [turn ''assistant'' (prefix @ t), turn ''user'' improve_instruction])
        [r := OList (xs @ [VRef (length h1), VRef (Suc (length h1))])]"
    by (simp add: list_iadd_Inr)
  have rt: "reply_text (P (length (w_calls w)) (native_params model S to_send)) = Some t"
    using stream final ct by (simp add: reply_text_Some)
  from len items pre same calls rt resp ct heap show ?thesis by blast
qed


lemma native_pass_list:
  assumes "native_pass P D E S M I model n l w = (Inr l', w')"
  shows "\<exists>r xs. M = VRef r \<and> lookup (w_heap w) r = Some (OList xs)"
proof -
  from native_pass_Inr [OF assms] obtain to_send h1 t where
    mts: "messages_to_send I M (w_heap w) = (Inr to_send, h1)"
    and iadd: "\<exists>h'. list_iadd M [VRef (length h1), VRef (Suc (length h1))]
         (h1 @ [turn ''assistant'' (prefix @ t), turn ''user'' improve_instruction]) = Inr h'"
    by blast
  show ?thesis
  proof (cases I)
    case True
    with mts show ?thesis by (auto simp: messages_to_send_Inr)
  next
    case False
    with mts have "h1 = w_heap w" by (simp add: messages_to_send_Inr)
    with iadd show ?thesis
      by (auto simp: list_iadd_Inr lookup_def nth_append turn_def nth_Cons' split: if_splits)
  qed
qed

lemma native_returns:
  assumes "stream_claude_response_native P D E S M I model w = (Inr text, w')"
  shows "\<exists>l1 w1 l2 w2 m.
      native_pass P D E S M I model 2 \<lparr>l_response = None, l_full_stream = []\<rparr> w = (Inr l1, w1)
    \<and> native_pass P D E S M I model 3 l1 w1 = (Inr l2, w2)
    \<and> l_response l2 = Some m \<and> content0_text m = Inr text
    \<and> w_heap w' = w_heap w2 \<and> w_calls w' = w_calls w2 \<and> w_sink w' = w_sink w2
    \<and> w_closed w' = Suc (w_closed w2)"
  using assms
  unfolding stream_claude_response_native_def native_passes_two Let_def
  by (auto split: prod.splits sum.splits option.splits if_splits
           simp: client_close_def write_to_file_def)

lemma native_run:
  assumes run: "stream_claude_response_native P D E S M I model w = (Inr text, w')"
  shows "\<exists>r xs s1 h1 s2 h2 t1.
      M = VRef r \<and> lookup (w_heap w) r = Some (OList xs)
    \<and> w_calls w' = w_calls w @ [(ClaudeRequest (native_params model S s1), h1),
                                 (ClaudeRequest (native_params model S s2), h2)]
    \<and> reply_text (P (length (w_calls w)) (native_params model S s1)) = Some t1
    \<and> reply_text (P (Suc (length (w_calls w))) (native_params model S s2)) = Some text
    \<and> length (w_heap w) \<le> length h1 \<and> Suc (Suc (length h1)) \<le> length h2
    \<and> list_items h1 s1 = xs @ (if I then [VRef (length (w_heap w))] else [])
    \<and> list_items h2 s2 = xs @ [VRef (length h1), VRef (Suc (length h1))]
                            @ (if I then [VRef (Suc (Suc (length h1)))] else [])
    \<and> lookup h2 (length h1) = Some (turn ''assistant'' (prefix @ t1))
    \<and> lookup h2 (Suc (length h1)) = Some (turn ''user'' improve_instruction)
    \<and> (I \<longrightarrow> lookup h2 (Suc (Suc (length h1))) = Some (turn ''assistant'' prefix))
    \<and> length (w_heap w') = Suc (Suc (length h2))
    \<and> lookup (w_heap w') r = Some (OList (xs @ [VRef (length h1), VRef (Suc (length h1)),
                                                VRef (length h2), VRef (Suc (length h2))]))
    \<and> lookup (w_heap w') (length h1) = Some (turn ''assistant'' (prefix @ t1))
    \<and> lookup (w_heap w') (Suc (length h1)) = Some (turn ''user'' improve_instruction)
    \<and> lookup (w_heap w') (length h2) = Some (turn ''assistant'' (prefix @ text))
    \<and> lookup (w_heap w') (Suc (length h2)) = Some (turn ''user'' improve_instruction)"
proof -
  from native_returns [OF run] obtain l1 w1 l2 w2 m where
    p1: "native_pass P D E S M I model 2 \<lparr>l_response = None, l_full_stream = []\<rparr> w = (Inr l1, w1)"
    and p2: "native_pass P D E S M I model 3 l1 w1 = (Inr l2, w2)"
    and m: "l_response l2 = Some m" "content0_text m = Inr text"
    and w': "w_heap w' = w_heap w2" "w_calls w' = w_calls w2"
    by blast
  from native_pass_list [OF p1] obtain r xs where
    M: "M = VRef r" and list: "lookup (w_heap w) r = Some (OList xs)" by blast
  from list have r: "r < length (w_heap w)" by (auto simp: lookup_def split: if_splits)
  from native_pass_effect [OF p1 [unfolded M] list] obtain s1 h1 t1 where
    len1: "length (w_heap w) \<le> length h1"
    and items1: "list_items h1 s1 = xs @ (if I then [VRef (length (w_heap w))] else [])"
    and calls1: "w_calls w1 = w_calls w @ [(ClaudeRequest (native_params model S s1), h1)]"
    and rt1: "reply_text (P (length (w_calls w)) (native_params model S s1)) = Some t1"
    and heap1: "w_heap w1 = (h1 @ [turn ''assistant'' (prefix @ t1), turn ''user'' improve_instruction])
                     [r := OList (xs @ [VRef (length h1), VRef (Suc (length h1))])]"
    by blast
  let ?xs1 = "xs @ [VRef (length h1), VRef (Suc (length h1))]"
  have lw1: "length (w_heap w1) = Suc (Suc (length h1))" by (simp add: heap1)
  have list1: "lookup (w_heap w1) r = Some (OList ?xs1)"
    using r len1 by (simp add: heap1 lookup_def)
  have a1: "lookup (w_heap w1) (length h1) = Some (turn ''assistant'' (prefix @ t1))"
    and u1: "lookup (w_heap w1) (Suc (length h1)) = Some (turn ''user'' improve_instruction)"
    using r len1 by (simp_all add: heap1 lookup_def nth_append)
  from native_pass_effect [OF p2 [unfolded M] list1] obtain s2 h2 m2 t2 where
    len2: "length (w_heap w1) \<le> length h2"
    and items2: "list_items h2 s2 = ?xs1 @ (if I then [VRef (length (w_heap w1))] else [])"
    and pre2: "I \<longrightarrow> lookup h2 (length (w_heap w1)) = Some (turn ''assistant'' prefix)"
    and same2: "\<forall>a < length (w_heap w1). lookup h2 a = lookup (w_heap w1) a"
    and calls2: "w_calls w2 = w_calls w1 @ [(ClaudeRequest (native_params model S s2), h2)]"
    and rt2: "reply_text (P (length (w_calls w1)) (native_params model S s2)) = Some t2"
    and m2: "l_response l2 = Some m2" "content0_text m2 = Inr t2"
    and heap2: "w_heap w2 = (h2 @ [turn ''assistant'' (prefix @ t2), turn ''user'' improve_instruction])
                     [r := OList (?xs1 @ [VRef (length h2), VRef (Suc (length h2))])]"
    by blast
  from m m2 have t2: "t2 = text" by simp
  have r2: "r < length h2" using r len1 len2 lw1 by simp
  have h2a: "lookup h2 (length h1) = Some (turn ''assistant'' (prefix @ t1))"
    and h2u: "lookup h2 (Suc (length h1)) = Some (turn ''user'' improve_instruction)"
    using same2 a1 u1 lw1 by simp_all
  have lw': "length (w_heap w') = Suc (Suc (length h2))" by (simp add: w' heap2)
  have list': "lookup (w_heap w') r = Some (OList (xs @ [VRef (length h1), VRef (Suc (length h1)),
                                                VRef (length h2), VRef (Suc (length h2))]))"
    using r2 by (simp add: w' heap2 lookup_def)
  have "lookup (w_heap w') (length h1) = lookup h2 (length h1)"
    "lookup (w_heap w') (Suc (length h1)) = lookup h2 (Suc (length h1))"
    using r len1 len2 lw1 by (simp_all add: w' heap2 lookup_def nth_append)
  with h2a h2u have a1': "lookup (w_heap w') (length h1) = Some (turn ''assistant'' (prefix @ t1))"
    and u1': "lookup (w_heap w') (Suc (length h1)) = Some (turn ''user'' improve_instruction)"
    by simp_all
  have a2': "lookup (w_heap w') (length h2) = Some (turn ''assistant'' (prefix @ text))"
    and u2': "lookup (w_heap w') (Suc (length h2)) = Some (turn ''user'' improve_instruction)"
    using r2 by (simp_all add: w' heap2 lookup_def nth_append t2)
  have calls': "w_calls w' = w_calls w @ [(ClaudeRequest (native_params model S s1), h1),
                                 (ClaudeRequest (native_params model S s2), h2)]"
    by (simp add: w' calls2 calls1)
  have rt2': "reply_text (P (Suc (length (w_calls w))) (native_params model S s2)) = Some text"
    using rt2 by (simp add: calls1 t2)
  have len2': "Suc (Suc (length h1)) \<le> length h2" using len2 lw1 by simp
  have items2': "list_items h2 s2 = xs @ [VRef (length h1), VRef (Suc (length h1))]
                            @ (if I then [VRef (Suc (Suc (length h1)))] else [])"
    using items2 by (simp add: lw1)
  have pre2': "I \<longrightarrow> lookup h2 (Suc (Suc (length h1))) = Some (turn ''assistant'' prefix)"
    using pre2 by (simp add: lw1)
  show ?thesis
    by (rule exI [where x = r], rule exI [where x = xs], rule exI [where x = s1],
        rule exI [where x = h1], rule exI [where x = s2], rule exI [where x = h2],
        rule exI [where x = t1])
       (intro conjI M list calls' rt1 rt2' len1 len2' items1 items2' h2a h2u pre2' lw' list'
          a1' u1' a2' u2')
qed



text \<open>
  C3. Whenever \<^verbatim>\<open>stream_claude_response_native\<close> returns, it has sent exactly two
  requests, the provider completed both, and the text returned is the final text of the
  second. The text of the first pass is not returned: it is in the conversation of the
  second request, in a dictionary whose \<^verbatim>\<open>role\<close> is \<^verbatim>\<open>assistant\<close> and whose
  \<^verbatim>\<open>content\<close> is that text after \<^verbatim>\<open><thinking>\<close>.
\<close>

theorem native_two_invocations:
  assumes "stream_claude_response_native P D E S M I model w = (Inr text, w')"
  shows "\<exists>p1 h1 p2 h2 t1 a.
      w_calls w' = w_calls w @ [(ClaudeRequest p1, h1), (ClaudeRequest p2, h2)]
    \<and> reply_text (P (length (w_calls w)) p1) = Some t1
    \<and> reply_text (P (Suc (length (w_calls w))) p2) = Some text
    \<and> VRef a \<in> set (list_items h2 (cp_messages p2))
    \<and> lookup h2 a = Some (ODict [(''role'', VStr ''assistant''),
                                  (''content'', VStr (''<thinking>'' @ t1))])
    \<and> getitem h2 (VRef a) ''role'' = Inr (VStr ''assistant'')
    \<and> getitem h2 (VRef a) ''content'' = Inr (VStr (''<thinking>'' @ t1))"
proof -
  from native_run [OF assms] obtain xs s1 h1 s2 h2 t1 where
    calls: "w_calls w' = w_calls w @ [(ClaudeRequest (native_params model S s1), h1),
                                 (ClaudeRequest (native_params model S s2), h2)]"
    and rt1: "reply_text (P (length (w_calls w)) (native_params model S s1)) = Some t1"
    and rt2: "reply_text (P (Suc (length (w_calls w))) (native_params model S s2)) = Some text"
    and items: "list_items h2 s2 = xs @ [VRef (length h1), VRef (Suc (length h1))]
                            @ (if I then [VRef (Suc (Suc (length h1)))] else [])"
    and a: "lookup h2 (length h1) = Some (turn ''assistant'' (prefix @ t1))"
    by blast
  have m: "VRef (length h1) \<in> set (list_items h2 (cp_messages (native_params model S s2)))"
    by (simp add: native_params_def items)
  from a have l: "lookup h2 (length h1) = Some (ODict [(''role'', VStr ''assistant''),
                                  (''content'', VStr (''<thinking>'' @ t1))])"
    by (simp add: turn_def prefix_def)
  have g1: "getitem h2 (VRef (length h1)) ''role'' = Inr (VStr ''assistant'')"
    by (simp add: getitem_def l)
  have g2: "getitem h2 (VRef (length h1)) ''content'' = Inr (VStr (''<thinking>'' @ t1))"
    by (simp add: getitem_def l)
  show ?thesis
    by (rule exI [where x = "native_params model S s1"], rule exI [where x = h1],
        rule exI [where x = "native_params model S s2"], rule exI [where x = h2],
        rule exI [where x = t1], rule exI [where x = "length h1"])
       (intro conjI calls rt1 rt2 m l g1 g2)
qed

theorem native_two_invocations_witness:
  "\<exists>p1 h1 p2 h2 t1 a.
      w_calls (snd (stream_claude_response_native sample_provider False (\<lambda>t. t)
                      (VStr ''You write HTML.'') (VRef 0) True CLAUDE_3_OPUS sample_world))
        = w_calls sample_world @ [(ClaudeRequest p1, h1), (ClaudeRequest p2, h2)]
    \<and> reply_text (sample_provider (length (w_calls sample_world)) p1) = Some t1
    \<and> reply_text (sample_provider (Suc (length (w_calls sample_world))) p2) = Some ''FINAL''
    \<and> VRef a \<in> set (list_items h2 (cp_messages p2))
    \<and> lookup h2 a = Some (ODict [(''role'', VStr ''assistant''),
                                  (''content'', VStr (''<thinking>'' @ t1))])
    \<and> getitem h2 (VRef a) ''role'' = Inr (VStr ''assistant'')
    \<and> getitem h2 (VRef a) ''content'' = Inr (VStr (''<thinking>'' @ t1))"
proof -
  let ?R = "stream_claude_response_native sample_provider False (\<lambda>t. t)
              (VStr ''You write HTML.'') (VRef 0) True CLAUDE_3_OPUS sample_world"
  have "fst ?R = Inr ''FINAL''" by code_simp
  then have "?R = (Inr ''FINAL'', snd ?R)" by (simp add: prod_eq_iff)
  from native_two_invocations [OF this] show ?thesis .
qed

lemma native_pass_Inl:
  assumes "native_pass P D E S M I model n l w = (Inl e, w')"
  shows "e \<noteq> NoHtmlResponse"
  using assms
  unfolding native_pass_def Let_def messages_to_send_def list_add_def list_iadd_def content0_text_def
  by (auto split: prod.splits sum.splits pystream.splits stream_end.splits final_message.splits
        pyval.splits option.splits pyobj.splits if_splits list.splits content_block.splits)

lemma native_not_NoHtmlResponse:
  "fst (stream_claude_response_native P D E S M I model w) \<noteq> Inl NoHtmlResponse"
proof
  assume a: "fst (stream_claude_response_native P D E S M I model w) = Inl NoHtmlResponse"
  let ?l0 = "\<lparr>l_response = None, l_full_stream = []\<rparr>"
  note a' = a [unfolded stream_claude_response_native_def native_passes_two]
  obtain r1 w1 where p1: "native_pass P D E S M I model 2 ?l0 w = (r1, w1)"
    by (cases "native_pass P D E S M I model 2 ?l0 w")
  show False
  proof (cases r1)
    case (Inl e)
    with p1 a' native_pass_Inl [of P D E S M I model 2 ?l0 w e w1] show False
      by simp
  next
    case (Inr l1)
    obtain r2 w2 where p2: "native_pass P D E S M I model 3 l1 w1 = (r2, w2)"
      by (cases "native_pass P D E S M I model 3 l1 w1")
    show False
    proof (cases r2)
      case (Inl e)
      with p1 p2 Inr a' native_pass_Inl [of P D E S M I model 3 l1 w1 e w2] show False
        by simp
    next
      case r2: (Inr l2)
      from native_pass_Inr [OF p2 [unfolded r2]] obtain m t where
        "l_response l2 = Some m" "content0_text m = Inr t" by blast
      with p1 p2 Inr r2 a' show False
        by (simp add: Let_def)
    qed
  qed
qed

text \<open>
  C4, as amended. \<^verbatim>\<open>stream_claude_response_native\<close> never fails with the exception of
  line 239 (the spec's NoResponseProducedError): the guard of line 238 is never reached
  with \<^verbatim>\<open>response\<close> unset. It returns normally only when both passes produced a final
  message; a pass that produces none ends the call with the error raised in that pass.
\<close>

theorem native_never_no_response:
  "fst (stream_claude_response_native P D E S M I model w) \<noteq> Inl NoHtmlResponse
   \<and> (\<forall>text. fst (stream_claude_response_native P D E S M I model w) = Inr text \<longrightarrow>
         (\<exists>p1 h1 m1 p2 h2 m2.
            w_calls (snd (stream_claude_response_native P D E S M I model w))
              = w_calls w @ [(ClaudeRequest p1, h1), (ClaudeRequest p2, h2)]
          \<and> reply_final (P (length (w_calls w)) p1) = FinalMessage m1
          \<and> reply_final (P (Suc (length (w_calls w))) p2) = FinalMessage m2))"
proof (intro conjI allI impI)
  show "fst (stream_claude_response_native P D E S M I model w) \<noteq> Inl NoHtmlResponse"
    by (rule native_not_NoHtmlResponse)
next
  fix t
  let ?R = "stream_claude_response_native P D E S M I model w"
  assume "fst ?R = Inr t"
  then have "?R = (Inr t, snd ?R)" by (simp add: prod_eq_iff)
  from native_run [OF this] obtain s1 h1 s2 h2 t1 where
    calls: "w_calls (snd ?R) = w_calls w @ [(ClaudeRequest (native_params model S s1), h1),
                                 (ClaudeRequest (native_params model S s2), h2)]"
    and rt1: "reply_text (P (length (w_calls w)) (native_params model S s1)) = Some t1"
    and rt2: "reply_text (P (Suc (length (w_calls w))) (native_params model S s2)) = Some t"
    by blast
  from rt1 rt2 obtain m1 m2 where
    "reply_final (P (length (w_calls w)) (native_params model S s1)) = FinalMessage m1"
    "reply_final (P (Suc (length (w_calls w))) (native_params model S s2)) = FinalMessage m2"
    by (auto simp: reply_text_Some)
  with calls show "\<exists>p1 h1 m1 p2 h2 m2.
            w_calls (snd ?R) = w_calls w @ [(ClaudeRequest p1, h1), (ClaudeRequest p2, h2)]
          \<and> reply_final (P (length (w_calls w)) p1) = FinalMessage m1
          \<and> reply_final (P (Suc (length (w_calls w))) p2) = FinalMessage m2"
    by blast
qed

theorem native_never_no_response_witness:
  "fst (stream_claude_response_native sample_provider False (\<lambda>t. t)
          (VStr ''You write HTML.'') (VRef 0) True CLAUDE_3_OPUS sample_world)
     \<noteq> Inl NoHtmlResponse
   \<and> (\<exists>p1 h1 m1 p2 h2 m2.
          w_calls (snd (stream_claude_response_native sample_provider False (\<lambda>t. t)
                          (VStr ''You write HTML.'') (VRef 0) True CLAUDE_3_OPUS sample_world))
            = w_calls sample_world @ [(ClaudeRequest p1, h1), (ClaudeRequest p2, h2)]
        \<and> reply_final (sample_provider (length (w_calls sample_world)) p1) = FinalMessage m1
        \<and> reply_final (sample_provider (Suc (length (w_calls sample_world))) p2)
            = FinalMessage m2)"
proof -
  let ?R = "stream_claude_response_native sample_provider False (\<lambda>t. t)
              (VStr ''You write HTML.'') (VRef 0) True CLAUDE_3_OPUS sample_world"
  have r: "fst ?R = Inr ''FINAL''" by code_simp
  note t = native_never_no_response [of sample_provider False "\<lambda>t. t" "VStr ''You write HTML.''"
      "VRef 0" True CLAUDE_3_OPUS sample_world]
  from t [THEN conjunct1] t [THEN conjunct2, THEN spec, THEN mp, OF r] show ?thesis
    by (rule conjI)
qed

text \<open>
  The claim C4 as the spec states it fails. With a provider whose stream breaks, no
  response object is ever produced, and the call fails with the provider's error after
  one request, not with the exception of line 239. With a provider that completes the
  first pass and breaks in the second, a final response object was produced, and the
  call does not return normally.
\<close>

theorem native_no_response_counterexample:
  "fst (stream_claude_response_native failing_provider False (\<lambda>t. t)
          (VStr ''You write HTML.'') (VRef 0) False CLAUDE_3_OPUS sample_world) = Inl ProviderError
   \<and> reply_text (failing_provider 0
          (native_params CLAUDE_3_OPUS (VStr ''You write HTML.'') (VRef 0))) = None
   \<and> length (w_calls (snd (stream_claude_response_native failing_provider False (\<lambda>t. t)
          (VStr ''You write HTML.'') (VRef 0) False CLAUDE_3_OPUS sample_world))) = 1
   \<and> fst (stream_claude_response_native fails_second_provider False (\<lambda>t. t)
          (VStr ''You write HTML.'') (VRef 0) False CLAUDE_3_OPUS sample_world) = Inl ProviderError
   \<and> reply_text (fails_second_provider 0
          (native_params CLAUDE_3_OPUS (VStr ''You write HTML.'') (VRef 0))) = Some ''DRAFT''"
  by code_simp

text \<open>
  C10. \<^verbatim>\<open>stream_claude_response_native\<close> extends the caller's list in place. After a
  call that returns, the list object the caller passed holds four more entries: for each
  pass a dictionary whose \<^verbatim>\<open>role\<close> is \<^verbatim>\<open>assistant\<close> and whose \<^verbatim>\<open>content\<close> is
  the text of that pass's reply after \<^verbatim>\<open><thinking>\<close>, and a dictionary whose
  \<^verbatim>\<open>role\<close> is \<^verbatim>\<open>user\<close> and whose \<^verbatim>\<open>content\<close> is the instruction of line 224.
  The last two were made after the second request was sent, so no request holds them.
\<close>

theorem native_extends_callers_list:
  assumes run: "stream_claude_response_native P D E S (VRef r) I model w = (Inr text, w')"
    and list: "lookup (w_heap w) r = Some (OList xs)"
  shows "\<exists>a1 u1 a2 u2 t1 p1 h1 p2 h2.
      lookup (w_heap w') r = Some (OList (xs @ [VRef a1, VRef u1, VRef a2, VRef u2]))
    \<and> lookup (w_heap w') a1 = Some (ODict [(''role'', VStr ''assistant''),
                                  (''content'', VStr (''<thinking>'' @ t1))])
    \<and> lookup (w_heap w') u1 = Some (ODict [(''role'', VStr ''user''),
                                  (''content'', VStr improve_instruction)])
    \<and> lookup (w_heap w') a2 = Some (ODict [(''role'', VStr ''assistant''),
                                  (''content'', VStr (''<thinking>'' @ text))])
    \<and> lookup (w_heap w') u2 = Some (ODict [(''role'', VStr ''user''),
                                  (''content'', VStr improve_instruction)])
    \<and> getitem (w_heap w') (VRef a1) ''role'' = Inr (VStr ''assistant'')
    \<and> getitem (w_heap w') (VRef a1) ''content'' = Inr (VStr (''<thinking>'' @ t1))
    \<and> getitem (w_heap w') (VRef u1) ''role'' = Inr (VStr ''user'')
    \<and> getitem (w_heap w') (VRef u1) ''content'' = Inr (VStr improve_instruction)
    \<and> getitem (w_heap w') (VRef a2) ''role'' = Inr (VStr ''assistant'')
    \<and> getitem (w_heap w') (VRef a2) ''content'' = Inr (VStr (''<thinking>'' @ text))
    \<and> getitem (w_heap w') (VRef u2) ''role'' = Inr (VStr ''user'')
    \<and> getitem (w_heap w') (VRef u2) ''content'' = Inr (VStr improve_instruction)
    \<and> length (w_heap w) \<le> a1 \<and> a1 < u1 \<and> u1 < a2 \<and> a2 < u2
    \<and> w_calls w' = w_calls w @ [(ClaudeRequest p1, h1), (ClaudeRequest p2, h2)]
    \<and> reply_text (P (length (w_calls w)) p1) = Some t1
    \<and> reply_text (P (Suc (length (w_calls w))) p2) = Some text
    \<and> length h1 \<le> a1 \<and> length h2 \<le> a2"
proof -
  from native_run [OF run] obtain r' xs' s1 h1 s2 h2 t1 where
    M: "VRef r = VRef r'" and list': "lookup (w_heap w) r' = Some (OList xs')"
    and calls: "w_calls w' = w_calls w @ [(ClaudeRequest (native_params model S s1), h1),
                                 (ClaudeRequest (native_params model S s2), h2)]"
    and rt1: "reply_text (P (length (w_calls w)) (native_params model S s1)) = Some t1"
    and rt2: "reply_text (P (Suc (length (w_calls w))) (native_params model S s2)) = Some text"
    and len: "length (w_heap w) \<le> length h1" "Suc (Suc (length h1)) \<le> length h2"
    and l: "lookup (w_heap w') r' = Some (OList (xs' @ [VRef (length h1), VRef (Suc (length h1)),
                                                VRef (length h2), VRef (Suc (length h2))]))"
    and a1: "lookup (w_heap w') (length h1) = Some (turn ''assistant'' (prefix @ t1))"
    and u1: "lookup (w_heap w') (Suc (length h1)) = Some (turn ''user'' improve_instruction)"
    and a2: "lookup (w_heap w') (length h2) = Some (turn ''assistant'' (prefix @ text))"
    and u2: "lookup (w_heap w') (Suc (length h2)) = Some (turn ''user'' improve_instruction)"
    by blast
  from M list list' have eq: "r' = r" "xs' = xs" by simp_all
  have ord: "length h1 < Suc (length h1)" "Suc (length h1) < length h2"
    "length h2 < Suc (length h2)" "length h1 \<le> length h1" "length h2 \<le> length h2"
    using len by simp_all
  note d = a1 [unfolded turn_def prefix_def] u1 [unfolded turn_def]
    a2 [unfolded turn_def prefix_def] u2 [unfolded turn_def]
  have g: "getitem (w_heap w') (VRef (length h1)) ''role'' = Inr (VStr ''assistant'')"
    "getitem (w_heap w') (VRef (length h1)) ''content'' = Inr (VStr (''<thinking>'' @ t1))"
    "getitem (w_heap w') (VRef (Suc (length h1))) ''role'' = Inr (VStr ''user'')"
    "getitem (w_heap w') (VRef (Suc (length h1))) ''content'' = Inr (VStr improve_instruction)"
    "getitem (w_heap w') (VRef (length h2)) ''role'' = Inr (VStr ''assistant'')"
    "getitem (w_heap w') (VRef (length h2)) ''content'' = Inr (VStr (''<thinking>'' @ text))"
    "getitem (w_heap w') (VRef (Suc (length h2))) ''role'' = Inr (VStr ''user'')"
    "getitem (w_heap w') (VRef (Suc (length h2))) ''content'' = Inr (VStr improve_instruction)"
    by (simp_all add: getitem_def d)
  show ?thesis
    by (rule exI [where x = "length h1"], rule exI [where x = "Suc (length h1)"],
        rule exI [where x = "length h2"], rule exI [where x = "Suc (length h2)"],
        rule exI [where x = t1], rule exI [where x = "native_params model S s1"],
        rule exI [where x = h1], rule exI [where x = "native_params model S s2"],
        rule exI [where x = h2])
       (intro conjI l [unfolded eq] d g len(1) ord calls rt1 rt2)
qed

theorem native_extends_callers_list_witness:
  "\<exists>a1 u1 a2 u2 t1 p1 h1 p2 h2.
      lookup (w_heap (snd (stream_claude_response_native sample_provider False (\<lambda>t. t)
                (VStr ''You write HTML.'') (VRef 0) True CLAUDE_3_OPUS sample_world))) 0 = Some (OList ([VRef 1] @ [VRef a1, VRef u1, VRef a2, VRef u2]))
    \<and> lookup (w_heap (snd (stream_claude_response_native sample_provider False (\<lambda>t. t)
                (VStr ''You write HTML.'') (VRef 0) True CLAUDE_3_OPUS sample_world))) a1 = Some (ODict [(''role'', VStr ''assistant''),
                                  (''content'', VStr (''<thinking>'' @ t1))])
    \<and> lookup (w_heap (snd (stream_claude_response_native sample_provider False (\<lambda>t. t)
                (VStr ''You write HTML.'') (VRef 0) True CLAUDE_3_OPUS sample_world))) u1 = Some (ODict [(''role'', VStr ''user''),
                                  (''content'', VStr improve_instruction)])
    \<and> lookup (w_heap (snd (stream_claude_response_native sample_provider False (\<lambda>t. t)
                (VStr ''You write HTML.'') (VRef 0) True CLAUDE_3_OPUS sample_world))) a2 = Some (ODict [(''role'', VStr ''assistant''),
                                  (''content'', VStr (''<thinking>'' @ ''FINAL''))])
    \<and> lookup (w_heap (snd (stream_claude_response_native sample_provider False (\<lambda>t. t)
                (VStr ''You write HTML.'') (VRef 0) True CLAUDE_3_OPUS sample_world))) u2 = Some (ODict [(''role'', VStr ''user''),
                                  (''content'', VStr improve_instruction)])
    \<and> getitem (w_heap (snd (stream_claude_response_native sample_provider False (\<lambda>t. t)
                (VStr ''You write HTML.'') (VRef 0) True CLAUDE_3_OPUS sample_world))) (VRef a1) ''role'' = Inr (VStr ''assistant'')
    \<and> getitem (w_heap (snd (stream_claude_response_native sample_provider False (\<lambda>t. t)
                (VStr ''You write HTML.'') (VRef 0) True CLAUDE_3_OPUS sample_world))) (VRef a1) ''content'' = Inr (VStr (''<thinking>'' @ t1))
    \<and> getitem (w_heap (snd (stream_claude_response_native sample_provider False (\<lambda>t. t)
                (VStr ''You write HTML.'') (VRef 0) True CLAUDE_3_OPUS sample_world))) (VRef u1) ''role'' = Inr (VStr ''user'')
    \<and> getitem (w_heap (snd (stream_claude_response_native sample_provider False (\<lambda>t. t)
                (VStr ''You write HTML.'') (VRef 0) True CLAUDE_3_OPUS sample_world))) (VRef u1) ''content'' = Inr (VStr improve_instruction)
    \<and> getitem (w_heap (snd (stream_claude_response_native sample_provider False (\<lambda>t. t)
                (VStr ''You write HTML.'') (VRef 0) True CLAUDE_3_OPUS sample_world))) (VRef a2) ''role'' = Inr (VStr ''assistant'')
    \<and> getitem (w_heap (snd (stream_claude_response_native sample_provider False (\<lambda>t. t)
                (VStr ''You write HTML.'') (VRef 0) True CLAUDE_3_OPUS sample_world))) (VRef a2) ''content'' = Inr (VStr (''<thinking>'' @ ''FINAL''))
    \<and> getitem (w_heap (snd (stream_claude_response_native sample_provider False (\<lambda>t. t)
                (VStr ''You write HTML.'') (VRef 0) True CLAUDE_3_OPUS sample_world))) (VRef u2) ''role'' = Inr (VStr ''user'')
    \<and> getitem (w_heap (snd (stream_claude_response_native sample_provider False (\<lambda>t. t)
                (VStr ''You write HTML.'') (VRef 0) True CLAUDE_3_OPUS sample_world))) (VRef u2) ''content'' = Inr (VStr improve_instruction)
    \<and> length (w_heap sample_world) \<le> a1 \<and> a1 < u1 \<and> u1 < a2 \<and> a2 < u2
    \<and> w_calls (snd (stream_claude_response_native sample_provider False (\<lambda>t. t)
                (VStr ''You write HTML.'') (VRef 0) True CLAUDE_3_OPUS sample_world)) = w_calls sample_world @ [(ClaudeRequest p1, h1), (ClaudeRequest p2, h2)]
    \<and> reply_text (sample_provider (length (w_calls sample_world)) p1) = Some t1
    \<and> reply_text (sample_provider (Suc (length (w_calls sample_world))) p2) = Some ''FINAL''
    \<and> length h1 \<le> a1 \<and> length h2 \<le> a2"
proof -
  let ?R = "stream_claude_response_native sample_provider False (\<lambda>t. t)
              (VStr ''You write HTML.'') (VRef 0) True CLAUDE_3_OPUS sample_world"
  have "fst ?R = Inr ''FINAL''" by code_simp
  then have run: "?R = (Inr ''FINAL'', snd ?R)" by (simp add: prod_eq_iff)
  have list: "lookup (w_heap sample_world) 0 = Some (OList [VRef 1])" by code_simp
  from native_extends_callers_list [OF run list] show ?thesis .
qed

text \<open>
  C2 at the input where the code departs from it. Without priming
  (\<^verbatim>\<open>include_thinking = False\<close>) the conversation of the first request is the
  caller's one turn, with no seeded assistant turn, and the provider answers
  \<^verbatim>\<open>DRAFT\<close>. The conversation of the second request has two turns more, and its
  assistant turn reads \<^verbatim>\<open><thinking>DRAFT\<close>: line 221 puts the prefix before the
  text whether or not line 186 seeded it.
\<close>

theorem native_prefix_without_priming:
  "map (\<lambda>(req, h). list_items h (case req of ClaudeRequest p \<Rightarrow> cp_messages p
                                    | OpenAIRequest p \<Rightarrow> op_messages p))
       (w_calls (snd (stream_claude_response_native sample_provider False (\<lambda>t. t)
                        (VStr ''You write HTML.'') (VRef 0) False CLAUDE_3_OPUS sample_world)))
     = [[VRef 1], [VRef 1, VRef 2, VRef 3]]
   \<and> map (\<lambda>(req, h). lookup h 2)
       (w_calls (snd (stream_claude_response_native sample_provider False (\<lambda>t. t)
                        (VStr ''You write HTML.'') (VRef 0) False CLAUDE_3_OPUS sample_world)))
     = [None, Some (turn ''assistant'' ''<thinking>DRAFT'')]
   \<and> reply_text (sample_provider 0
          (native_params CLAUDE_3_OPUS (VStr ''You write HTML.'') (VRef 0))) = Some ''DRAFT''"
  by code_simp

section \<open>The Message Normalizer: properties\<close>

lemma take_keep:
  "length h \<le> length h1 \<Longrightarrow> take (length h) h1 = h \<Longrightarrow> n \<le> length h \<Longrightarrow> take n h1 = take n h"
proof -
  assume a: "length h \<le> length h1" "take (length h) h1 = h" "n \<le> length h"
  have "take n (take (length h) h1) = take n h1" using a(3) by (simp add: min_def)
  with a(2) show ?thesis by simp
qed

lemma list_append_length [simp]: "length (list_append h y v) = length h"
  by (simp add: list_append_def split: pyobj.splits)

lemma dict_store_length [simp]: "length (dict_store h y k v) = length h"
  by (simp add: dict_store_def split: pyobj.splits)

lemma list_append_take: "n \<le> y \<Longrightarrow> take n (list_append h y v) = take n h"
  by (simp add: list_append_def split: pyobj.splits)

lemma dict_store_take: "n \<le> y \<Longrightarrow> take n (dict_store h y k v) = take n h"
  by (simp add: dict_store_def split: pyobj.splits)

lemma deepcopy_list_keeps:
  assumes f: "\<And>x h m v h' m'. f x (h, m) = Inr (v, h', m') \<Longrightarrow>
                length h \<le> length h' \<and> take (length h) h' = h"
  shows "deepcopy_list f xs y (h, m) = Inr (h', m') \<Longrightarrow> n \<le> y \<Longrightarrow> n \<le> length h \<Longrightarrow>
           length h \<le> length h' \<and> take n h' = take n h"
proof (induction xs arbitrary: h m)
  case Nil
  then show ?case by simp
next
  case (Cons x xs)
  from Cons.prems(1) obtain v h1 m1 where
    fx: "f x (h, m) = Inr (v, h1, m1)"
    and rest: "deepcopy_list f xs y (list_append h1 y v, m1) = Inr (h', m')"
    by (auto split: sum.splits)
  from f [OF fx] have h1: "length h \<le> length h1" "take (length h) h1 = h" by simp_all
  with Cons.prems have t1: "take n h1 = take n h" by (simp add: take_keep)
  from Cons.IH [OF rest Cons.prems(2)] Cons.prems(3) h1
  have "length (list_append h1 y v) \<le> length h'"
    "take n h' = take n (list_append h1 y v)" by simp_all
  with h1 t1 Cons.prems(2) show ?case by (simp add: list_append_take)
qed

lemma deepcopy_dict_keeps:
  assumes f: "\<And>x h m v h' m'. f x (h, m) = Inr (v, h', m') \<Longrightarrow>
                length h \<le> length h' \<and> take (length h) h' = h"
  shows "deepcopy_dict f kvs y (h, m) = Inr (h', m') \<Longrightarrow> n \<le> y \<Longrightarrow> n \<le> length h \<Longrightarrow>
           length h \<le> length h' \<and> take n h' = take n h"
proof (induction kvs arbitrary: h m)
  case Nil
  then show ?case by simp
next
  case (Cons kv kvs)
  from Cons.prems(1) obtain v h1 m1 where
    fx: "f (snd kv) (h, m) = Inr (v, h1, m1)"
    and rest: "deepcopy_dict f kvs y (dict_store h1 y (fst kv) v, m1) = Inr (h', m')"
    by (auto split: sum.splits)
  from f [OF fx] have h1: "length h \<le> length h1" "take (length h) h1 = h" by simp_all
  with Cons.prems have t1: "take n h1 = take n h" by (simp add: take_keep)
  from Cons.IH [OF rest Cons.prems(2)] Cons.prems(3) h1
  have "length (dict_store h1 y (fst kv) v) \<le> length h'"
    "take n h' = take n (dict_store h1 y (fst kv) v)" by simp_all
  with h1 t1 Cons.prems(2) show ?case by (simp add: dict_store_take)
qed

lemma deepcopy_keeps:
  "deepcopy k x (h, m) = Inr (v, h', m') \<Longrightarrow> length h \<le> length h' \<and> take (length h) h' = h"
proof (induction k arbitrary: x h m v h' m')
  case 0
  then show ?case by simp
next
  case (Suc k)
  note IH = Suc.IH
  show ?case
  proof (cases x)
    case (VRef a)
    show ?thesis
    proof (cases "m a")
      case (Some y)
      with Suc.prems VRef show ?thesis by simp
    next
      case None
      show ?thesis
      proof (cases "lookup h a")
        case None
        with Suc.prems VRef \<open>m a = None\<close> show ?thesis by simp
      next
        case (Some obj)
        show ?thesis
        proof (cases obj)
          case (OList xs)
          with Suc.prems VRef \<open>m a = None\<close> Some
          have run: "deepcopy_list (deepcopy k) xs (length h) (h @ [OList []], m(a \<mapsto> length h))
                      = Inr (h', m')"
            by (auto split: sum.splits)
          have "length (h @ [OList []]) \<le> length h' \<and> take (length h) h' = take (length h) (h @ [OList []])"
            by (rule deepcopy_list_keeps [where f = "deepcopy k" and n = "length h", OF IH run]) simp_all
          then show ?thesis by simp
        next
          case (ODict kvs)
          with Suc.prems VRef \<open>m a = None\<close> Some
          have run: "deepcopy_dict (deepcopy k) kvs (length h) (h @ [ODict []], m(a \<mapsto> length h))
                      = Inr (h', m')"
            by (auto split: sum.splits)
          have "length (h @ [ODict []]) \<le> length h' \<and> take (length h) h' = take (length h) (h @ [ODict []])"
            by (rule deepcopy_dict_keeps [where f = "deepcopy k" and n = "length h", OF IH run]) simp_all
          then show ?thesis by simp
        qed
      qed
    qed
  qed (use Suc.prems in simp_all)
qed

lemma update_fresh:
  "list_all (\<lambda>kv. fresh_val n (snd kv)) kvs \<Longrightarrow> fresh_val n v \<Longrightarrow>
     list_all (\<lambda>kv. fresh_val n (snd kv)) (AList.update k v kvs)"
  by (induction kvs) auto

lemma delete_fresh:
  "list_all (\<lambda>kv. fresh_val n (snd kv)) kvs \<Longrightarrow>
     list_all (\<lambda>kv. fresh_val n (snd kv)) (AList.delete k kvs)"
  by (induction kvs) auto

lemma map_of_fresh:
  "list_all (\<lambda>kv. fresh_val n (snd kv)) kvs \<Longrightarrow> map_of kvs k = Some v \<Longrightarrow> fresh_val n v"
  by (induction kvs) (auto split: if_splits)

lemma separate_update:
  "separate n h \<Longrightarrow> fresh_obj n obj \<Longrightarrow> separate n (h[a := obj])"
  unfolding separate_def
  by (metis length_list_update nth_list_update_eq nth_list_update_neq)

lemma separate_append:
  "separate n h \<Longrightarrow> fresh_obj n obj \<Longrightarrow> separate n (h @ [obj])"
  by (auto simp: separate_def nth_append)

lemma separate_nth: "separate n h \<Longrightarrow> n \<le> a \<Longrightarrow> a < length h \<Longrightarrow> fresh_obj n (h ! a)"
  by (simp add: separate_def)

lemma list_append_separate:
  assumes "separate n h" "fresh_val n v" "n \<le> y"
  shows "separate n (list_append h y v)"
proof (cases "y < length h")
  case True
  with assms separate_nth [OF assms(1) assms(3) True] show ?thesis
    by (auto simp: list_append_def fresh_obj_def intro!: separate_update split: pyobj.splits)
next
  case False
  then show ?thesis using assms by (simp add: list_append_def list_update_beyond split: pyobj.splits)
qed

lemma dict_store_separate:
  assumes "separate n h" "fresh_val n v" "n \<le> y"
  shows "separate n (dict_store h y k v)"
proof (cases "y < length h")
  case True
  with assms separate_nth [OF assms(1) assms(3) True] show ?thesis
    by (auto simp: dict_store_def fresh_obj_def update_fresh intro!: separate_update
             split: pyobj.splits)
next
  case False
  then show ?thesis using assms by (simp add: dict_store_def list_update_beyond split: pyobj.splits)
qed

lemma deepcopy_list_good:
  assumes f: "\<And>x s v s'. good n s \<Longrightarrow> f x s = Inr (v, s') \<Longrightarrow> good n s' \<and> fresh_val n v"
  shows "good n s \<Longrightarrow> n \<le> y \<Longrightarrow> deepcopy_list f xs y s = Inr s' \<Longrightarrow> good n s'"
proof (induction xs arbitrary: s)
  case Nil
  then show ?case by simp
next
  case (Cons x xs)
  from Cons.prems(3) obtain v h1 m1 where
    fx: "f x s = Inr (v, h1, m1)"
    and rest: "deepcopy_list f xs y (list_append h1 y v, m1) = Inr s'"
    by (auto split: sum.splits)
  from f [OF Cons.prems(1) fx] have g: "good n (h1, m1)" and v: "fresh_val n v" by simp_all
  then have "good n (list_append h1 y v, m1)"
    using Cons.prems(2) by (simp add: good_def list_append_separate)
  from Cons.IH [OF this Cons.prems(2) rest] show ?case .
qed

lemma deepcopy_dict_good:
  assumes f: "\<And>x s v s'. good n s \<Longrightarrow> f x s = Inr (v, s') \<Longrightarrow> good n s' \<and> fresh_val n v"
  shows "good n s \<Longrightarrow> n \<le> y \<Longrightarrow> deepcopy_dict f kvs y s = Inr s' \<Longrightarrow> good n s'"
proof (induction kvs arbitrary: s)
  case Nil
  then show ?case by simp
next
  case (Cons kv kvs)
  from Cons.prems(3) obtain v h1 m1 where
    fx: "f (snd kv) s = Inr (v, h1, m1)"
    and rest: "deepcopy_dict f kvs y (dict_store h1 y (fst kv) v, m1) = Inr s'"
    by (auto split: sum.splits)
  from f [OF Cons.prems(1) fx] have g: "good n (h1, m1)" and v: "fresh_val n v" by simp_all
  then have "good n (dict_store h1 y (fst kv) v, m1)"
    using Cons.prems(2) by (simp add: good_def dict_store_separate)
  from Cons.IH [OF this Cons.prems(2) rest] show ?case .
qed

lemma deepcopy_good:
  "good n s \<Longrightarrow> deepcopy k x s = Inr (v, s') \<Longrightarrow> good n s' \<and> fresh_val n v"
proof (induction k arbitrary: x s v s')
  case 0
  then show ?case by simp
next
  case (Suc k)
  note IH = Suc.IH
  obtain h m where s: "s = (h, m)" by (cases s)
  from Suc.prems(1) s have n: "n \<le> length h" and sep: "separate n h"
    and memo: "\<And>a y. m a = Some y \<Longrightarrow> n \<le> y"
    by (auto simp: good_def)
  show ?case
  proof (cases x)
    case (VRef a)
    show ?thesis
    proof (cases "m a")
      case (Some y)
      with Suc.prems VRef s memo [OF Some] show ?thesis by (auto simp: fresh_val_def)
    next
      case None
      have ext: "good n (h @ [obj], m(a \<mapsto> length h))" if "fresh_obj n obj" for obj
        using n sep memo that by (auto simp: good_def separate_append)
      show ?thesis
      proof (cases "lookup h a")
        case None
        with Suc.prems VRef \<open>m a = None\<close> s show ?thesis by simp
      next
        case (Some obj)
        show ?thesis
        proof (cases obj)
          case (OList xs)
          with Suc.prems VRef \<open>m a = None\<close> Some s
          have run: "deepcopy_list (deepcopy k) xs (length h) (h @ [OList []], m(a \<mapsto> length h))
                      = Inr s'" and v: "v = VRef (length h)"
            by (auto split: sum.splits)
          have "good n s'"
            by (rule deepcopy_list_good [where f = "deepcopy k", OF IH _ n run])
               (simp_all add: ext fresh_obj_def)
          with v n show ?thesis by (simp add: fresh_val_def)
        next
          case (ODict kvs)
          with Suc.prems VRef \<open>m a = None\<close> Some s
          have run: "deepcopy_dict (deepcopy k) kvs (length h) (h @ [ODict []], m(a \<mapsto> length h))
                      = Inr s'" and v: "v = VRef (length h)"
            by (auto split: sum.splits)
          have "good n s'"
            by (rule deepcopy_dict_good [where f = "deepcopy k", OF IH _ n run])
               (simp_all add: ext fresh_obj_def)
          with v n show ?thesis by (simp add: fresh_val_def)
        qed
      qed
    qed
  qed (use Suc.prems in \<open>auto simp: fresh_val_def\<close>)
qed

lemma getitem_Inr:
  "getitem h obj k = Inr v \<longleftrightarrow>
     (\<exists>a kvs. obj = VRef a \<and> lookup h a = Some (ODict kvs) \<and> map_of kvs k = Some v)"
  by (auto simp: getitem_def split: pyval.splits option.splits pyobj.splits)

lemma getitem_dict:
  "lookup h a = Some (ODict kvs) \<Longrightarrow>
     getitem h (VRef a) k = (case map_of kvs k of None \<Rightarrow> Inl KeyError | Some v \<Rightarrow> Inr v)"
  by (simp add: getitem_def)

lemma setitem_dict:
  "lookup h a = Some (ODict kvs) \<Longrightarrow>
     setitem (VRef a) k v h = Inr (h[a := ODict (AList.update k v kvs)])"
  by (simp add: setitem_def)

lemma delitem_dict:
  "lookup h a = Some (ODict kvs) \<Longrightarrow> map_of kvs k = Some v \<Longrightarrow>
     delitem (VRef a) k h = Inr (h[a := ODict (AList.delete k kvs)])"
  by (simp add: delitem_def)

lemma lookup_Some: "lookup h a = Some obj \<longleftrightarrow> a < length h \<and> h ! a = obj"
  by (auto simp: lookup_def)

lemma lookup_update_same: "a < length h \<Longrightarrow> lookup (h[a := obj]) a = Some obj"
  by (simp add: lookup_def)

lemma lookup_update_other: "b \<noteq> a \<Longrightarrow> lookup (h[a := obj]) b = lookup h b"
  by (simp add: lookup_def)

lemma lookup_append_old: "a < length h \<Longrightarrow> lookup (h @ ext) a = lookup h a"
  by (simp add: lookup_def nth_append)

lemma rewrite_content_cases:
  assumes "rewrite_content ip c h = (r, h')"
  shows "(h' = h \<and> (r = Inr () \<longrightarrow> (\<exists>t. getitem h c ''type'' = Inr t \<and> t \<noteq> VStr ''image_url'')))
    \<or> (\<exists>a kvs. c = VRef a \<and> lookup h a = Some (ODict kvs)
          \<and> map_of kvs ''type'' = Some (VStr ''image_url'')
          \<and> ((\<exists>e. r = Inl e) \<and> h' = h[a := ODict (AList.update ''type'' (VStr ''image'') kvs)]
             \<or> (\<exists>iu url mt b. map_of kvs ''image_url'' = Some iu
                   \<and> getitem (h[a := ODict (AList.update ''type'' (VStr ''image'') kvs)]) iu ''url''
                       = Inr url
                   \<and> ip url = Inr (mt, b) \<and> r = Inr ()
                   \<and> h' = (h[a := ODict (AList.delete ''image_url''
                                        (AList.update ''type'' (VStr ''image'') kvs))]
                            @ [source_dict mt b])
                           [a := ODict (AList.update ''source'' (VRef (length h))
                                  (AList.delete ''image_url''
                                     (AList.update ''type'' (VStr ''image'') kvs)))])))"
proof (cases "getitem h c ''type''")
  case (Inl e)
  with assms show ?thesis by (auto simp: rewrite_content_def)
next
  case (Inr t)
  show ?thesis
  proof (cases "t = VStr ''image_url''")
    case False
    with assms Inr show ?thesis by (auto simp: rewrite_content_def)
  next
    case True
    from Inr True obtain a kvs where c: "c = VRef a" and l: "lookup h a = Some (ODict kvs)"
      and ty: "map_of kvs ''type'' = Some (VStr ''image_url'')"
      by (auto simp: getitem_Inr)
    let ?k1 = "AList.update ''type'' (VStr ''image'') kvs"
    let ?h1 = "h[a := ODict ?k1]"
    let ?k2 = "AList.delete ''image_url'' ?k1"
    let ?h2 = "?h1[a := ODict ?k2]"
    from l have a: "a < length h" by (simp add: lookup_Some)
    have s1: "setitem c ''type'' (VStr ''image'') h = Inr ?h1" by (simp add: c setitem_dict [OF l])
    have l1: "lookup ?h1 a = Some (ODict ?k1)" using a by (simp add: lookup_update_same)
    have g1: "getitem ?h1 c ''image_url'' =
        (case map_of kvs ''image_url'' of None \<Rightarrow> Inl KeyError | Some v \<Rightarrow> Inr v)"
      by (simp add: c getitem_dict [OF l1] update_conv')
    show ?thesis
    proof (cases "map_of kvs ''image_url''")
      case None
      with assms Inr True s1 g1 c l ty show ?thesis by (auto simp: rewrite_content_def)
    next
      case (Some iu)
      show ?thesis
      proof (cases "getitem ?h1 iu ''url''")
        case (Inl e)
        with assms Inr True s1 g1 c l ty Some show ?thesis by (auto simp: rewrite_content_def)
      next
        case url: (Inr url)
        show ?thesis
        proof (cases "ip url")
          case (Inl e)
          with assms Inr True s1 g1 c l ty Some url show ?thesis
            by (auto simp: rewrite_content_def)
        next
          case ip: (Inr mb)
          obtain mt b where mb: "mb = (mt, b)" by (cases mb)
          have m1: "map_of ?k1 ''image_url'' = Some iu" using Some by (simp add: update_conv')
          have d: "delitem c ''image_url'' ?h1 = Inr ?h2"
            by (simp add: c delitem_dict [OF l1 m1])
          have l2: "lookup (?h2 @ [source_dict mt b]) a = Some (ODict ?k2)"
            using a by (simp add: lookup_def nth_append)
          have s2: "setitem c ''source'' (VRef (length ?h2)) (?h2 @ [source_dict mt b]) =
              Inr ((?h2 @ [source_dict mt b])[a := ODict (AList.update ''source'' (VRef (length ?h2)) ?k2)])"
            by (simp only: c setitem_dict [OF l2])
          from assms Inr True s1 g1 Some url ip mb d s2
          have "r = Inr ()" "h' = (?h2 @ [source_dict mt b])
              [a := ODict (AList.update ''source'' (VRef (length ?h2)) ?k2)]"
            by (auto simp: rewrite_content_def)
          with c l ty Some url ip mb show ?thesis by simp
        qed
      qed
    qed
  qed
qed

lemma grows_refl: "separate n h \<Longrightarrow> grows n h h"
  by (simp add: grows_def)

lemma grows_trans: "grows n h h1 \<Longrightarrow> grows n h1 h2 \<Longrightarrow> grows n h h2"
  by (simp add: grows_def)

lemma fresh_VRef: "fresh_val n (VRef a) \<longleftrightarrow> n \<le> a"
  by (simp add: fresh_val_def)

lemma fresh_dict:
  assumes "separate n h" "n \<le> a" "lookup h a = Some (ODict kvs)"
  shows "list_all (\<lambda>kv. fresh_val n (snd kv)) kvs"
  using separate_nth [OF assms(1,2)] assms(3) by (auto simp: lookup_Some fresh_obj_def)

lemma fresh_list:
  assumes "separate n h" "n \<le> a" "lookup h a = Some (OList xs)"
  shows "list_all (fresh_val n) xs"
  using separate_nth [OF assms(1,2)] assms(3) by (auto simp: lookup_Some fresh_obj_def)

lemma getitem_fresh:
  assumes "separate n h" "fresh_val n obj" "getitem h obj k = Inr v"
  shows "fresh_val n v"
proof -
  from assms(3) obtain a kvs where "obj = VRef a" "lookup h a = Some (ODict kvs)"
    "map_of kvs k = Some v" by (auto simp: getitem_Inr)
  with assms(1,2) show ?thesis by (auto simp: fresh_VRef dest: fresh_dict map_of_fresh)
qed

lemma list_items_fresh:
  assumes "separate n h" "fresh_val n c"
  shows "list_all (fresh_val n) (list_items h c)"
  using assms
  by (auto simp: list_items_def fresh_VRef dest: fresh_list split: pyval.splits option.splits pyobj.splits)

lemma fresh_VStr: "fresh_val n (VStr t)"
  by (simp add: fresh_val_def)

lemma fresh_source: "fresh_obj n (source_dict mt b)"
  by (simp add: fresh_obj_def source_dict_def fresh_val_def)

lemma rewrite_content_grows:
  assumes n: "n \<le> length h" and sep: "separate n h" and c: "fresh_val n c"
    and run: "rewrite_content ip c h = (r, h')"
  shows "grows n h h'"
proof -
  from rewrite_content_cases [OF run] consider
    (same) "h' = h"
  | (typed) a kvs where "c = VRef a" "lookup h a = Some (ODict kvs)"
      "h' = h[a := ODict (AList.update ''type'' (VStr ''image'') kvs)]"
  | (full) a kvs mt b where "c = VRef a" "lookup h a = Some (ODict kvs)"
      "h' = (h[a := ODict (AList.delete ''image_url''
                                        (AList.update ''type'' (VStr ''image'') kvs))]
                            @ [source_dict mt b])
                           [a := ODict (AList.update ''source'' (VRef (length h))
                                  (AList.delete ''image_url''
                                     (AList.update ''type'' (VStr ''image'') kvs)))]"
    by blast
  then show ?thesis
  proof cases
    case same
    with sep show ?thesis by (simp add: grows_refl)
  next
    case typed
    with c have a: "n \<le> a" by (simp add: fresh_VRef)
    from fresh_dict [OF sep a typed(2)]
    have "fresh_obj n (ODict (AList.update ''type'' (VStr ''image'') kvs))"
      by (simp add: fresh_obj_def update_fresh fresh_VStr)
    with sep a typed(3) show ?thesis by (simp add: grows_def separate_update)
  next
    case full
    with c have a: "n \<le> a" by (simp add: fresh_VRef)
    let ?k2 = "AList.delete ''image_url'' (AList.update ''type'' (VStr ''image'') kvs)"
    from fresh_dict [OF sep a full(2)]
    have k2: "list_all (\<lambda>kv. fresh_val n (snd kv)) ?k2"
      by (simp add: update_fresh delete_fresh fresh_VStr)
    then have o2: "fresh_obj n (ODict ?k2)" by (simp add: fresh_obj_def)
    from k2 n have o3: "fresh_obj n (ODict (AList.update ''source'' (VRef (length h)) ?k2))"
      by (simp add: fresh_obj_def update_fresh fresh_VRef)
    have "separate n h'"
      unfolding full(3) by (intro separate_update separate_append sep o2 o3 fresh_source)
    moreover have "take n h' = take n h" using a n by (simp add: full(3))
    ultimately show ?thesis by (simp add: grows_def full(3))
  qed
qed

lemma grows_length: "grows n h h' \<Longrightarrow> n \<le> length h \<Longrightarrow> n \<le> length h'"
  by (simp add: grows_def)

lemma grows_separate: "grows n h h' \<Longrightarrow> separate n h'"
  by (simp add: grows_def)

lemma rewrite_contents_grows:
  "n \<le> length h \<Longrightarrow> separate n h \<Longrightarrow> list_all (fresh_val n) cs \<Longrightarrow>
     rewrite_contents ip cs h = (r, h') \<Longrightarrow> grows n h h'"
proof (induction cs arbitrary: h)
  case Nil
  then show ?case by (simp add: grows_refl)
next
  case (Cons c cs)
  obtain r1 h1 where one: "rewrite_content ip c h = (r1, h1)" by (cases "rewrite_content ip c h")
  from Cons.prems have g1: "grows n h h1"
    by (intro rewrite_content_grows [OF _ _ _ one]) simp_all
  show ?case
  proof (cases r1)
    case (Inl e)
    with Cons.prems(4) one g1 show ?thesis by simp
  next
    case (Inr u)
    with Cons.prems(4) one have "rewrite_contents ip cs h1 = (r, h')" by simp
    from Cons.IH [OF grows_length [OF g1 Cons.prems(1)] grows_separate [OF g1] _ this]
      Cons.prems(3) g1
    show ?thesis by (auto intro: grows_trans)
  qed
qed

lemma rewrite_message_grows:
  assumes "n \<le> length h" "separate n h" "fresh_val n m" "rewrite_message ip m h = (r, h')"
  shows "grows n h h'"
proof (cases "getitem h m ''content''")
  case (Inl e)
  with assms show ?thesis by (auto simp: rewrite_message_def grows_refl)
next
  case (Inr c)
  from getitem_fresh [OF assms(2,3) Inr] have "fresh_val n c" .
  from list_items_fresh [OF assms(2) this] assms Inr show ?thesis
    by (auto simp: rewrite_message_def grows_refl intro: rewrite_contents_grows split: if_splits)
qed

lemma rewrite_messages_grows:
  "n \<le> length h \<Longrightarrow> separate n h \<Longrightarrow> list_all (fresh_val n) ms \<Longrightarrow>
     rewrite_messages ip ms h = (r, h') \<Longrightarrow> grows n h h'"
proof (induction ms arbitrary: h)
  case Nil
  then show ?case by (simp add: grows_refl)
next
  case (Cons m ms)
  obtain r1 h1 where one: "rewrite_message ip m h = (r1, h1)" by (cases "rewrite_message ip m h")
  from Cons.prems have g1: "grows n h h1"
    by (intro rewrite_message_grows [OF _ _ _ one]) simp_all
  show ?case
  proof (cases r1)
    case (Inl e)
    with Cons.prems(4) one g1 show ?thesis by simp
  next
    case (Inr u)
    with Cons.prems(4) one have "rewrite_messages ip ms h1 = (r, h')" by simp
    from Cons.IH [OF grows_length [OF g1 Cons.prems(1)] grows_separate [OF g1] _ this]
      Cons.prems(3) g1
    show ?thesis by (auto intro: grows_trans)
  qed
qed

lemma dict_copy_grows:
  assumes "n \<le> length h" "separate n h" "fresh_val n m" "dict_copy m h = (r, h')"
  shows "grows n h h' \<and> (\<forall>d. r = Inr d \<longrightarrow> fresh_val n d)"
proof -
  have ext: "grows n h (h @ [obj])" if "fresh_obj n obj" for obj
    using assms(1,2) that by (simp add: grows_def separate_append)
  have e: "fresh_obj n (ODict [])" by (simp add: fresh_obj_def)
  have d: "fresh_obj n (ODict kvs)" if "m = VRef a" "lookup h a = Some (ODict kvs)" for a kvs
    using fresh_dict [OF assms(2) _ that(2)] assms(3) that(1)
    by (simp add: fresh_VRef fresh_obj_def)
  have "(h' = h \<and> (\<exists>e. r = Inl e))
      \<or> (h' = h @ [ODict []] \<and> r = Inr (VRef (length h)))
      \<or> (\<exists>a kvs. m = VRef a \<and> lookup h a = Some (ODict kvs) \<and> h' = h @ [ODict kvs]
            \<and> r = Inr (VRef (length h)))"
  proof (cases m)
    case (VRef a)
    show ?thesis
    proof (cases "lookup h a")
      case None
      with assms(4) VRef show ?thesis by (auto simp: dict_copy_def)
    next
      case (Some obj)
      show ?thesis
      proof (cases obj)
        case (OList xs)
        with assms(4) VRef Some show ?thesis by (cases xs) (auto simp: dict_copy_def)
      next
        case (ODict kvs)
        with assms(4) VRef Some show ?thesis by (auto simp: dict_copy_def)
      qed
    qed
  next
    case (VStr t)
    with assms(4) show ?thesis by (cases t) (auto simp: dict_copy_def)
  qed (use assms(4) in \<open>auto simp: dict_copy_def\<close>)
  then consider "h' = h" "\<exists>e. r = Inl e"
    | "h' = h @ [ODict []]" "r = Inr (VRef (length h))"
    | a kvs where "m = VRef a" "lookup h a = Some (ODict kvs)" "h' = h @ [ODict kvs]"
        "r = Inr (VRef (length h))"
    by blast
  then show ?thesis
  proof cases
    case 1
    with assms(2) show ?thesis by (auto simp: grows_refl)
  next
    case 2
    with ext [OF e] assms(1) show ?thesis by (simp add: fresh_VRef)
  next
    case 3
    with ext [OF d [OF 3(1,2)]] assms(1) show ?thesis by (simp add: fresh_VRef)
  qed
qed

lemma dict_copies_grows:
  "n \<le> length h \<Longrightarrow> separate n h \<Longrightarrow> list_all (fresh_val n) ms \<Longrightarrow>
     dict_copies ms h = (r, h') \<Longrightarrow>
     grows n h h' \<and> (\<forall>ds. r = Inr ds \<longrightarrow> list_all (fresh_val n) ds)"
proof (induction ms arbitrary: h r h')
  case Nil
  then show ?case by (auto simp: grows_refl)
next
  case (Cons m ms)
  obtain r1 h1 where one: "dict_copy m h = (r1, h1)" by (cases "dict_copy m h")
  from Cons.prems have g1: "grows n h h1" and f1: "\<forall>d. r1 = Inr d \<longrightarrow> fresh_val n d"
    using dict_copy_grows [OF _ _ _ one, of n] by simp_all
  show ?case
  proof (cases r1)
    case (Inl e)
    with Cons.prems(4) one g1 show ?thesis by auto
  next
    case (Inr d)
    obtain r2 h2 where two: "dict_copies ms h1 = (r2, h2)" by (cases "dict_copies ms h1")
    from Cons.IH [OF grows_length [OF g1 Cons.prems(1)] grows_separate [OF g1] _ two]
      Cons.prems(3)
    have g2: "grows n h1 h2" and f2: "\<forall>ds. r2 = Inr ds \<longrightarrow> list_all (fresh_val n) ds"
      by simp_all
    from Cons.prems(4) one Inr two have "h' = h2"
      "r = (case r2 of Inl e \<Rightarrow> Inl e | Inr ds \<Rightarrow> Inr (d # ds))"
      by (auto split: sum.splits)
    with g1 g2 f1 f2 Inr show ?thesis by (auto intro: grows_trans split: sum.splits)
  qed
qed

lemma separate_top: "separate (length h) h"
  by (auto simp: separate_def)

lemma translate_messages_grows:
  assumes "translate_messages L ip messages h = (r, h')"
  shows "length h \<le> length h' \<and> take (length h) h' = h"
proof (cases "deepcopy L messages (h, Map.empty)")
  case (Inl e)
  with assms show ?thesis by (simp add: translate_messages_def)
next
  case (Inr res)
  obtain cloned h1 m where res: "res = (cloned, h1, m)" by (cases res)
  let ?n = "length h"
  have g0: "good ?n (h, Map.empty)" by (simp add: good_def separate_top)
  from deepcopy_good [OF g0 Inr [unfolded res]]
  have g1: "good ?n (h1, m)" and fc: "fresh_val ?n cloned" by simp_all
  then have n1: "?n \<le> length h1" and s1: "separate ?n h1" by (simp_all add: good_def)
  from deepcopy_keeps [OF Inr [unfolded res]] have k1: "take ?n h1 = h" by simp
  have fin: "length h \<le> length h2 \<and> take ?n h2 = h" if "grows ?n h1 h2" for h2
    using that n1 k1 by (simp add: grows_def)
  have stay: "length h \<le> length h1 \<and> take ?n h1 = h" using n1 k1 by simp
  show ?thesis
  proof (cases "getitem0 h1 cloned")
    case (Inl e)
    with assms Inr res stay show ?thesis by (auto simp: translate_messages_def)
  next
    case first: (Inr first)
    show ?thesis
    proof (cases "dict_get h1 first ''content''")
      case (Inl e)
      with assms Inr res first stay show ?thesis by (auto simp: translate_messages_def)
    next
      case sp: (Inr system_prompt)
      obtain r2 h2 where copies: "dict_copies (drop 1 (list_items h1 cloned)) h1 = (r2, h2)"
        by (cases "dict_copies (drop 1 (list_items h1 cloned)) h1")
      have "list_all (fresh_val ?n) (drop 1 (list_items h1 cloned))"
        using list_items_fresh [OF s1 fc] by (auto simp: list_all_iff dest: in_set_dropD)
      from dict_copies_grows [OF n1 s1 this copies]
      have g2: "grows ?n h1 h2" and f2: "\<forall>ds. r2 = Inr ds \<longrightarrow> list_all (fresh_val ?n) ds"
        by simp_all
      show ?thesis
      proof (cases r2)
        case (Inl e)
        with assms Inr res first sp copies fin [OF g2] show ?thesis
          by (auto simp: translate_messages_def)
      next
        case ds: (Inr ds)
        from f2 ds have fds: "list_all (fresh_val ?n) ds" by simp
        obtain r3 h3 where rw: "rewrite_messages ip ds (h2 @ [OList ds]) = (r3, h3)"
          by (cases "rewrite_messages ip ds (h2 @ [OList ds])")
        have n2: "?n \<le> length h2" using g2 n1 by (rule grows_length)
        have g2': "grows ?n h2 (h2 @ [OList ds])"
          using grows_separate [OF g2] fds n2
          by (simp add: grows_def separate_append fresh_obj_def)
        have "grows ?n (h2 @ [OList ds]) h3"
          by (rule rewrite_messages_grows [OF _ grows_separate [OF g2'] fds rw]) (use n2 in simp)
        with g2 g2' have "grows ?n h1 h3" by (blast intro: grows_trans)
        from fin [OF this] assms Inr res first sp copies ds rw show ?thesis
          by (auto simp: translate_messages_def split: sum.splits)
      qed
    qed
  qed
qed

lemma claude_text_stream_heap [simp]: "w_heap (claude_text_stream texts w) = w_heap w"
  by (induction texts w rule: claude_text_stream.induct) (simp_all add: callback_def)

lemma claude_text_stream_calls [simp]: "w_calls (claude_text_stream texts w) = w_calls w"
  by (induction texts w rule: claude_text_stream.induct) (simp_all add: callback_def)

text \<open>
  C6. \<^verbatim>\<open>stream_claude_response\<close> changes no object that existed before the call:
  whatever the conversation, the provider's answer and the outcome, the store after the
  call is the store before it followed by new objects. The caller's conversation, which
  is made of objects of the store before the call, therefore has the value it had.
\<close>

theorem stream_claude_response_keeps_store:
  "\<exists>new. w_heap (snd (stream_claude_response L ip P messages model w)) = w_heap w @ new"
proof -
  obtain r h' where t: "translate_messages L ip messages (w_heap w) = (r, h')"
    by (cases "translate_messages L ip messages (w_heap w)")
  from translate_messages_grows [OF t]
  have "h' = w_heap w @ drop (length (w_heap w)) h'"
    by (metis append_take_drop_id)
  moreover have "w_heap (snd (stream_claude_response L ip P messages model w)) = h'"
    using t
    by (auto simp: stream_claude_response_def Let_def send_def client_close_def
             split: sum.splits prod.splits pystream.splits stream_end.splits final_message.splits)
  ultimately show ?thesis by metis
qed

theorem stream_claude_response_keeps_store_witness:
  "\<exists>new. w_heap (snd (stream_claude_response 1000 sample_images sample_provider (VRef 0)
                        CLAUDE_3_5_SONNET_2024_06_20 sample_chat))
           = w_heap sample_chat @ new"
  by (rule stream_claude_response_keeps_store)

















lemma same_but_role_entry_refl: "same_but_role_entry kv kv"
  by (simp add: same_but_role_entry_def)

lemma same_but_role_obj_refl: "same_but_role_obj obj obj"
  by (cases obj) (simp_all add: list_all2_refl same_but_role_entry_refl)

lemma same_but_role_refl: "same_but_role h h"
  by (simp add: same_but_role_def list_all2_refl same_but_role_obj_refl)










































section \<open>The rewriting of the image parts: properties\<close>

lemma rewrite_inv_refl: "rewrite_inv ip h h"
  by (auto simp: rewrite_inv_def)

lemma map_of_rewritten_key:
  "k \<noteq> ''type'' \<Longrightarrow> k \<noteq> ''image_url'' \<Longrightarrow> k \<noteq> ''source'' \<Longrightarrow>
     map_of (AList.update ''source'' v (AList.delete ''image_url'' (AList.update ''type'' u kvs))) k
       = map_of kvs k"
  by (simp add: update_conv' delete_conv')

lemma map_of_rewritten_type:
  "map_of (AList.update ''source'' v (AList.delete ''image_url'' (AList.update ''type'' u kvs)))
      ''type'' = Some u"
  by (simp add: update_conv' delete_conv')



lemma source_dict_url: "map_of [(''type'', x), (''media_type'', y), (''data'', z)] ''url'' = None"
  by simp

lemma rewrite_inv_getitem:
  assumes inv: "rewrite_inv ip h0 h" and k: "k \<noteq> ''type''" "k \<noteq> ''image_url''" "k \<noteq> ''source''"
    and old: "\<And>a. obj = VRef a \<Longrightarrow> a < length h0"
  shows "getitem h obj k = getitem h0 obj k"
proof (cases obj)
  case (VRef a)
  then have a: "a < length h0" by (rule old)
  with inv have ah: "a < length h" and d: "h ! a = h0 ! a \<or> rewritten ip h0 h a"
    by (auto simp: rewrite_inv_def)
  from d show ?thesis
  proof
    assume "h ! a = h0 ! a"
    with a ah VRef show ?thesis by (simp add: getitem_def lookup_def)
  next
    assume "rewritten ip h0 h a"
    then obtain kvs v where "lookup h0 a = Some (ODict kvs)"
      "lookup h a = Some (ODict (AList.update ''source'' v
                               (AList.delete ''image_url''
                                  (AList.update ''type'' (VStr ''image'') kvs))))"
      by (auto simp: rewritten_def)
    with VRef k show ?thesis by (simp add: getitem_dict map_of_rewritten_key)
  qed
qed (simp_all add: getitem_def)

lemma rewrite_inv_list:
  assumes inv: "rewrite_inv ip h0 h" and l: "lookup h0 b = Some (OList xs)"
  shows "lookup h b = Some (OList xs)"
proof -
  from l have b: "b < length h0" "h0 ! b = OList xs" by (simp_all add: lookup_Some)
  with inv have "b < length h" "h ! b = h0 ! b \<or> rewritten ip h0 h b"
    by (auto simp: rewrite_inv_def)
  with l b show ?thesis by (auto simp: rewritten_def lookup_Some)
qed

lemma rewrite_inv_is_list:
  assumes "rewrite_inv ip h0 h" "is_list h0 c"
  shows "is_list h c \<and> list_items h c = list_items h0 c"
proof -
  from assms(2) obtain b xs where "c = VRef b" "lookup h0 b = Some (OList xs)"
    by (auto simp: is_list_def split: pyval.splits option.splits pyobj.splits)
  with rewrite_inv_list [OF assms(1) this(2)] show ?thesis
    by (simp add: is_list_def list_items_def)
qed


lemma full_lookup:
  assumes "a < length h"
  shows "lookup ((h[a := X] @ [S])[a := Y]) a = Some Y"
    and "lookup ((h[a := X] @ [S])[a := Y]) (length h) = Some S"
    and "x \<noteq> a \<Longrightarrow> x < length h \<Longrightarrow> lookup ((h[a := X] @ [S])[a := Y]) x = lookup h x"
    and "length h < x \<Longrightarrow> lookup ((h[a := X] @ [S])[a := Y]) x = None"
  using assms by (auto simp: lookup_def nth_append nth_list_update)

lemma source_dict_type:
  "lookup h s = Some (source_dict mt b) \<Longrightarrow> getitem h (VRef s) ''type'' = Inr (VStr ''base64'')"
  by (simp add: getitem_def source_dict_def)

lemma source_dict_no_url:
  "lookup h s = Some (source_dict mt b) \<Longrightarrow> getitem h (VRef s) ''url'' = Inl KeyError"
  by (simp add: getitem_def source_dict_def)

lemma rewritten_type:
  "rewritten ip h0 h a \<Longrightarrow> getitem h (VRef a) ''type'' = Inr (VStr ''image'')"
  by (auto simp: rewritten_def getitem_dict map_of_rewritten_type)

lemma rewrite_content_inv:
  assumes inv: "rewrite_inv ip h0 h" and run: "rewrite_content ip p h = (Inr (), h')"
  shows "rewrite_inv ip h0 h' \<and> settled h' p \<and> (\<forall>q. settled h q \<longrightarrow> settled h' q)"
proof -
  from inv have len0: "length h0 \<le> length h"
    and old: "\<And>x. x < length h0 \<Longrightarrow> h ! x = h0 ! x \<or> rewritten ip h0 h x"
    and new: "\<And>s. length h0 \<le> s \<Longrightarrow> s < length h \<Longrightarrow> \<exists>mt b. h ! s = source_dict mt b"
    by (auto simp: rewrite_inv_def)
  from rewrite_content_cases [OF run] consider
    (kept) t where "h' = h" "getitem h p ''type'' = Inr t" "t \<noteq> VStr ''image_url''"
  | (full) a kvs iu url mt b where "p = VRef a" "lookup h a = Some (ODict kvs)"
      "map_of kvs ''type'' = Some (VStr ''image_url'')" "map_of kvs ''image_url'' = Some iu"
      "getitem (h[a := ODict (AList.update ''type'' (VStr ''image'') kvs)]) iu ''url'' = Inr url"
      "ip url = Inr (mt, b)"
      "h' = (h[a := ODict (AList.delete ''image_url''
                                        (AList.update ''type'' (VStr ''image'') kvs))]
                            @ [source_dict mt b])
                           [a := ODict (AList.update ''source'' (VRef (length h))
                                  (AList.delete ''image_url''
                                     (AList.update ''type'' (VStr ''image'') kvs)))]"
    by auto
  then show ?thesis
  proof cases
    case kept
    with inv show ?thesis by (simp add: settled_def)
  next
    case full
    let ?k1 = "AList.update ''type'' (VStr ''image'') kvs"
    let ?k3 = "AList.update ''source'' (VRef (length h)) (AList.delete ''image_url'' ?k1)"
    from full(2) have a: "a < length h" and ha: "h ! a = ODict kvs" by (simp_all add: lookup_Some)
    note lk = full_lookup [OF a, where X = "ODict (AList.delete ''image_url'' ?k1)"
        and S = "source_dict mt b" and Y = "ODict ?k3", folded full(7)]
    have ty: "getitem h (VRef a) ''type'' = Inr (VStr ''image_url'')"
      by (simp add: getitem_dict [OF full(2)] full(3))
    have a0: "a < length h0"
    proof (rule ccontr)
      assume "\<not> a < length h0"
      with new [of a] a obtain mt' b' where "h ! a = source_dict mt' b'" by auto
      with a have "lookup h a = Some (source_dict mt' b')" by (simp add: lookup_Some)
      from source_dict_type [OF this] ty show False by simp
    qed
    have same: "h ! a = h0 ! a"
    proof (rule ccontr)
      assume "h ! a \<noteq> h0 ! a"
      with old [OF a0] have "rewritten ip h0 h a" by simp
      from rewritten_type [OF this] ty show False by simp
    qed
    with a0 ha have l0: "lookup h0 a = Some (ODict kvs)" by (simp add: lookup_Some)
    have url0: "getitem h0 iu ''url'' = Inr url"
    proof -
      from full(5) obtain b' kvsb where iu: "iu = VRef b'"
        and lb: "lookup (h[a := ODict ?k1]) b' = Some (ODict kvsb)"
        and mb: "map_of kvsb ''url'' = Some url"
        by (auto simp: getitem_Inr)
      show ?thesis
      proof (cases "b' = a")
        case True
        with lb a have "kvsb = ?k1" by (simp add: lookup_Some)
        with mb have "map_of kvs ''url'' = Some url" by (simp add: update_conv')
        with True iu l0 show ?thesis by (simp add: getitem_dict)
      next
        case False
        with lb have lh: "lookup h b' = Some (ODict kvsb)" by (simp add: lookup_update_other)
        then have gh: "getitem h iu ''url'' = Inr url" using iu mb by (simp add: getitem_dict)
        have b0: "b' < length h0"
        proof (rule ccontr)
          assume "\<not> b' < length h0"
          with new [of b'] lh obtain mt' b'' where "lookup h b' = Some (source_dict mt' b'')"
            by (auto simp: lookup_Some)
          from source_dict_no_url [OF this] gh iu show False by simp
        qed
        have "getitem h iu ''url'' = getitem h0 iu ''url''"
          by (rule rewrite_inv_getitem [OF inv]) (use iu b0 in simp_all)
        with gh show ?thesis by simp
      qed
    qed
    have ra: "rewritten ip h0 h' a"
      unfolding rewritten_def
      using l0 full(3,4,6) url0 len0 lk(1,2) by blast
    have keep: "rewritten ip h0 h' x" if "rewritten ip h0 h x" "x \<noteq> a" for x
    proof -
      from that(1) obtain kvs' iu' url' mt' b' s where r:
        "lookup h0 x = Some (ODict kvs')" "map_of kvs' ''type'' = Some (VStr ''image_url'')"
        "map_of kvs' ''image_url'' = Some iu'" "getitem h0 iu' ''url'' = Inr url'"
        "ip url' = Inr (mt', b')" "length h0 \<le> s" "lookup h s = Some (source_dict mt' b')"
        "lookup h x = Some (ODict (AList.update ''source'' (VRef s)
                               (AList.delete ''image_url''
                                  (AList.update ''type'' (VStr ''image'') kvs'))))"
        unfolding rewritten_def by blast
      from r(7) r(6) a0 have s: "s < length h" "s \<noteq> a" by (auto simp: lookup_Some)
      from r(8) have x: "x < length h" by (simp add: lookup_Some)
      from lk(3) [OF s(2,1)] lk(3) [OF that(2) x] r show ?thesis
        unfolding rewritten_def by metis
    qed
    have inv': "rewrite_inv ip h0 h'"
      unfolding rewrite_inv_def
    proof (intro conjI allI impI)
      show "length h0 \<le> length h'" using len0 by (simp add: full(7))
    next
      fix x assume x: "x < length h0"
      show "h' ! x = h0 ! x \<or> rewritten ip h0 h' x"
      proof (cases "x = a")
        case True
        with ra show ?thesis by simp
      next
        case False
        from x len0 have xl: "x < length h" by simp
        from lk(3) [OF False xl] xl have "h' ! x = h ! x"
          by (simp add: lookup_def full(7) split: if_splits)
        with old [OF x] keep [OF _ False] show ?thesis by auto
      qed
    next
      fix s assume s: "length h0 \<le> s \<and> s < length h'"
      show "\<exists>mt b. h' ! s = source_dict mt b"
      proof (cases "s = length h")
        case True
        with lk(2) show ?thesis by (auto simp: lookup_Some)
      next
        case False
        with s have sl: "s < length h" by (simp add: full(7))
        from s a0 have "s \<noteq> a" by simp
        from lk(3) [OF this sl] sl have "h' ! s = h ! s"
          by (simp add: lookup_def full(7) split: if_splits)
        with new [of s] s sl show ?thesis by simp
      qed
    qed
    have sp: "settled h' p"
      using rewritten_type [OF ra] by (simp add: settled_def full(1))
    have pres: "settled h' q" if "settled h q" for q
    proof (cases q)
      case (VRef x)
      consider "x = a" | "x \<noteq> a" "x < length h" | "x = length h" | "length h < x"
        by linarith
      then show ?thesis
      proof cases
        case 1
        with sp full(1) VRef show ?thesis by simp
      next
        case 2
        from lk(3) [OF 2] that VRef show ?thesis by (simp add: settled_def getitem_def)
      next
        case 3
        with source_dict_type [OF lk(2)] VRef show ?thesis by (simp add: settled_def)
      next
        case 4
        from lk(4) [OF 4] VRef show ?thesis by (simp add: settled_def getitem_def)
      qed
    qed (simp_all add: settled_def getitem_def)
    from inv' sp pres show ?thesis by blast
  qed
qed


lemma rewrite_contents_inv:
  "rewrite_inv ip h0 h \<Longrightarrow> rewrite_contents ip ps h = (Inr (), h') \<Longrightarrow>
     rewrite_inv ip h0 h' \<and> (\<forall>p\<in>set ps. settled h' p) \<and> (\<forall>q. settled h q \<longrightarrow> settled h' q)"
proof (induction ps arbitrary: h)
  case Nil
  then show ?case by simp
next
  case (Cons p ps)
  obtain r1 h1 where one: "rewrite_content ip p h = (r1, h1)" by (cases "rewrite_content ip p h")
  with Cons.prems(2) have r1: "r1 = Inr ()" and rest: "rewrite_contents ip ps h1 = (Inr (), h')"
    by (auto split: sum.splits)
  from rewrite_content_inv [OF Cons.prems(1) one [unfolded r1]]
  have i1: "rewrite_inv ip h0 h1" and s1: "settled h1 p"
    and p1: "\<And>q. settled h q \<Longrightarrow> settled h1 q" by simp_all
  from Cons.IH [OF i1 rest]
  have i2: "rewrite_inv ip h0 h'" and s2: "\<forall>p\<in>set ps. settled h' p"
    and p2: "\<And>q. settled h1 q \<Longrightarrow> settled h' q" by simp_all
  from i2 s2 p2 [OF s1] p1 p2 show ?case by simp
qed

lemma rewrite_message_inv:
  assumes inv: "rewrite_inv ip h0 h" and run: "rewrite_message ip m h = (Inr (), h')"
  shows "rewrite_inv ip h0 h' \<and> (\<forall>q. settled h q \<longrightarrow> settled h' q)
     \<and> (\<forall>c. getitem h m ''content'' = Inr c \<and> is_list h c \<longrightarrow>
           (\<forall>p\<in>set (list_items h c). settled h' p))"
proof (cases "getitem h m ''content''")
  case (Inl e)
  with run show ?thesis by (simp add: rewrite_message_def)
next
  case (Inr c)
  show ?thesis
  proof (cases "is_list h c")
    case False
    with run Inr inv show ?thesis by (simp add: rewrite_message_def)
  next
    case True
    with run Inr have "rewrite_contents ip (list_items h c) h = (Inr (), h')"
      by (simp add: rewrite_message_def)
    from rewrite_contents_inv [OF inv this] Inr show ?thesis by simp
  qed
qed

lemma rewrite_messages_inv:
  "rewrite_inv ip h0 h \<Longrightarrow> rewrite_messages ip ms h = (Inr (), h') \<Longrightarrow>
     rewrite_inv ip h0 h' \<and> (\<forall>q. settled h q \<longrightarrow> settled h' q)
     \<and> (\<forall>m\<in>set ms. \<forall>c. getitem h0 m ''content'' = Inr c \<and> is_list h0 c \<longrightarrow>
           (\<forall>p\<in>set (list_items h0 c). settled h' p))"
proof (induction ms arbitrary: h)
  case Nil
  then show ?case by simp
next
  case (Cons m ms)
  obtain r1 h1 where one: "rewrite_message ip m h = (r1, h1)" by (cases "rewrite_message ip m h")
  with Cons.prems(2) have r1: "r1 = Inr ()" and rest: "rewrite_messages ip ms h1 = (Inr (), h')"
    by (auto split: sum.splits)
  from rewrite_message_inv [OF Cons.prems(1) one [unfolded r1]]
  have i1: "rewrite_inv ip h0 h1"
    and p1: "\<And>q. settled h q \<Longrightarrow> settled h1 q"
    and s1: "\<And>c p. getitem h m ''content'' = Inr c \<Longrightarrow> is_list h c \<Longrightarrow>
               p \<in> set (list_items h c) \<Longrightarrow> settled h1 p"
    by simp_all
  note ih = Cons.IH [OF i1 rest]
  note i2 = ih [THEN conjunct1]
  from ih have p2: "\<And>q. settled h1 q \<Longrightarrow> settled h' q" by simp
  note s2 = ih [THEN conjunct2, THEN conjunct2]
  have head: "settled h' p"
    if c: "getitem h0 m ''content'' = Inr c" and l: "is_list h0 c"
      and p: "p \<in> set (list_items h0 c)" for c p
  proof -
    from c have old: "\<And>a. m = VRef a \<Longrightarrow> a < length h0"
      by (auto simp: getitem_Inr lookup_Some)
    have "getitem h m ''content'' = getitem h0 m ''content''"
      by (rule rewrite_inv_getitem [OF Cons.prems(1)]) (simp_all add: old)
    with c have ch: "getitem h m ''content'' = Inr c" by simp
    from rewrite_inv_is_list [OF Cons.prems(1) l] p
    have "is_list h c" "p \<in> set (list_items h c)" by simp_all
    from p2 [OF s1 [OF ch this]] show ?thesis .
  qed
  have pres: "\<forall>q. settled h q \<longrightarrow> settled h' q" using p1 p2 by blast
  have all: "\<forall>m'\<in>set (m # ms). \<forall>c. getitem h0 m' ''content'' = Inr c \<and> is_list h0 c \<longrightarrow>
           (\<forall>p\<in>set (list_items h0 c). settled h' p)"
  proof (intro ballI allI impI)
    fix m' c p
    assume m': "m' \<in> set (m # ms)"
      and c: "getitem h0 m' ''content'' = Inr c \<and> is_list h0 c"
      and p: "p \<in> set (list_items h0 c)"
    show "settled h' p"
    proof (cases "m' = m")
      case True
      with c p head show ?thesis by simp
    next
      case False
      with m' have "m' \<in> set ms" by simp
      with s2 c p show ?thesis by blast
    qed
  qed
  from i2 pres all show ?case by (intro conjI)
qed





lemma dict_copy_old:
  assumes "dict_copy m h = (Inr d, h')"
  shows "length h < length h' \<and> (\<exists>a. d = VRef a \<and> a < length h')"
proof (cases m)
  case (VRef a)
  show ?thesis
  proof (cases "lookup h a")
    case None
    with assms VRef show ?thesis by (simp add: dict_copy_def)
  next
    case (Some obj)
    show ?thesis
    proof (cases obj)
      case (OList xs)
      with assms VRef Some show ?thesis by (cases xs) (auto simp: dict_copy_def)
    next
      case (ODict kvs)
      with assms VRef Some show ?thesis by (auto simp: dict_copy_def)
    qed
  qed
next
  case (VStr t)
  with assms show ?thesis by (cases t) (auto simp: dict_copy_def)
qed (use assms in \<open>auto simp: dict_copy_def\<close>)

lemma dict_copies_old:
  "dict_copies ms h = (Inr ds, h') \<Longrightarrow>
     length h \<le> length h' \<and> (\<forall>d\<in>set ds. \<exists>a. d = VRef a \<and> a < length h')"
proof (induction ms arbitrary: h ds)
  case Nil
  then show ?case by simp
next
  case (Cons m ms)
  obtain r1 h1 where one: "dict_copy m h = (r1, h1)" by (cases "dict_copy m h")
  obtain r2 h2 where two: "dict_copies ms h1 = (r2, h2)" by (cases "dict_copies ms h1")
  from Cons.prems one two obtain d ds' where r: "r1 = Inr d" "r2 = Inr ds'" "ds = d # ds'" "h2 = h'"
    by (auto split: sum.splits)
  from dict_copy_old [OF one [unfolded r(1)]] obtain a where
    a: "length h < length h1" "d = VRef a" "a < length h1" by blast
  from Cons.IH [OF two [unfolded r(2) r(4)]] r(4) have
    b: "length h1 \<le> length h2" "\<forall>d\<in>set ds'. \<exists>a. d = VRef a \<and> a < length h2" by simp_all
  from a b r show ?case by auto
qed

lemma translate_messages_Inr:
  assumes "translate_messages L ip messages h = (Inr (sp, cm), h')"
  shows "\<exists>h2 ds. cm = VRef (length h2) \<and> rewrite_messages ip ds (h2 @ [OList ds]) = (Inr (), h')
           \<and> (\<forall>d\<in>set ds. \<exists>a. d = VRef a \<and> a < length h2)"
proof -
  from assms obtain cloned h1 memo ds h2 where
    c: "dict_copies (drop 1 (list_items h1 cloned)) h1 = (Inr ds, h2)"
    and r: "rewrite_messages ip ds (h2 @ [OList ds]) = (Inr (), h')" and cm: "cm = VRef (length h2)"
    by (auto simp: translate_messages_def split: sum.splits prod.splits)
  from dict_copies_old [OF c] r cm show ?thesis by blast
qed

lemma rewrite_inv_list_back:
  assumes inv: "rewrite_inv ip h0 h" and l: "lookup h b = Some (OList xs)"
  shows "lookup h0 b = Some (OList xs)"
proof (cases "b < length h0")
  case True
  with inv have "h ! b = h0 ! b \<or> rewritten ip h0 h b" by (simp add: rewrite_inv_def)
  with l True show ?thesis by (auto simp: rewritten_def lookup_Some)
next
  case False
  from l have bl: "b < length h" and hb: "h ! b = OList xs" by (simp_all add: lookup_Some)
  from inv have "\<forall>s. length h0 \<le> s \<and> s < length h \<longrightarrow> (\<exists>mt b. h ! s = source_dict mt b)"
    by (simp add: rewrite_inv_def)
  with False bl have "\<exists>mt b'. h ! b = source_dict mt b'" by (simp add: not_less)
  then obtain mt b' where "h ! b = source_dict mt b'" by blast
  with hb show ?thesis by (simp add: source_dict_def)
qed

lemma stream_claude_response_request:
  assumes "w_calls (snd (stream_claude_response L ip P messages model w))
             = w_calls w @ [(ClaudeRequest params, h')]"
  shows "\<exists>sp. translate_messages L ip messages (w_heap w) = (Inr (sp, cp_messages params), h')"
proof (cases "translate_messages L ip messages (w_heap w)")
  case (Pair r h)
  show ?thesis
  proof (cases r)
    case (Inl e)
    with Pair assms show ?thesis by (simp add: stream_claude_response_def)
  next
    case (Inr sc)
    obtain sp cm where sc: "sc = (sp, cm)" by (cases sc)
    from Pair Inr sc
    have "w_calls (snd (stream_claude_response L ip P messages model w))
            = w_calls w @ [(ClaudeRequest (claude_request_params model sp cm), h)]"
      by (simp add: stream_claude_response_def Let_def send_def client_close_def
            split: pystream.splits stream_end.splits final_message.splits)
    with assms have "params = claude_request_params model sp cm" "h' = h" by simp_all
    with Pair Inr sc show ?thesis by (simp add: claude_request_params_def)
  qed
qed

text \<open>
  The same for the whole function, on the request it sends: in the store that the
  request is sent with, no part of a content list of the request's conversation has
  the type \<^verbatim>\<open>image_url\<close>.
\<close>

theorem stream_claude_response_payload:
  assumes sent: "w_calls (snd (stream_claude_response L ip P messages model w))
             = w_calls w @ [(ClaudeRequest params, h')]"
    and m: "m \<in> set (list_items h' (cp_messages params))"
    and c: "getitem h' m ''content'' = Inr c" and l: "is_list h' c"
    and p: "p \<in> set (list_items h' c)"
  shows "getitem h' p ''type'' \<noteq> Inr (VStr ''image_url'')"
proof -
  from stream_claude_response_request [OF sent] obtain sp where
    "translate_messages L ip messages (w_heap w) = (Inr (sp, cp_messages params), h')" ..
  from translate_messages_Inr [OF this] obtain h2 ds where
    cm: "cp_messages params = VRef (length h2)"
    and run: "rewrite_messages ip ds (h2 @ [OList ds]) = (Inr (), h')"
    and old: "\<forall>d\<in>set ds. \<exists>a. d = VRef a \<and> a < length h2" by blast
  let ?h0 = "h2 @ [OList ds]"
  note ri = rewrite_messages_inv [OF rewrite_inv_refl run]
  note inv = ri [THEN conjunct1]
  note all = ri [THEN conjunct2, THEN conjunct2]
  have "lookup ?h0 (length h2) = Some (OList ds)" by (simp add: lookup_def)
  from rewrite_inv_list [OF inv this] cm have "list_items h' (cp_messages params) = ds"
    by (simp add: list_items_def)
  with m have mds: "m \<in> set ds" by simp
  with old obtain am where "m = VRef am" "am < length h2" by blast
  then have mo: "\<And>a. m = VRef a \<Longrightarrow> a < length ?h0" by auto
  have "getitem h' m ''content'' = getitem ?h0 m ''content''"
  proof (rule rewrite_inv_getitem [OF inv])
    fix a assume "m = VRef a"
    then show "a < length ?h0" by (rule mo)
  qed simp_all
  with c have c0: "getitem ?h0 m ''content'' = Inr c" by simp
  from l obtain b xs where cb: "c = VRef b" and lb: "lookup h' b = Some (OList xs)"
    by (auto simp: is_list_def split: pyval.splits option.splits pyobj.splits)
  from rewrite_inv_list_back [OF inv lb] cb lb
  have l0: "is_list ?h0 c" and items: "list_items ?h0 c = list_items h' c"
    by (simp_all add: is_list_def list_items_def)
  from all [THEN bspec, OF mds, THEN spec, THEN mp, OF conjI [OF c0 l0]] p items
  have "settled h' p" by simp
  then show ?thesis by (simp add: settled_def)
qed

text \<open>
  The conversations of the two requests of \<^verbatim>\<open>stream_claude_response_native\<close>: the
  first has the caller's turns, the second two turns more; with priming each has the
  seeded turn in addition.
\<close>

theorem native_request_lengths:
  assumes run: "stream_claude_response_native P D E S (VRef r) I model w = (Inr text, w')"
    and list: "lookup (w_heap w) r = Some (OList xs)"
  shows "\<exists>p1 h1 p2 h2.
      w_calls w' = w_calls w @ [(ClaudeRequest p1, h1), (ClaudeRequest p2, h2)]
    \<and> length (list_items h1 (cp_messages p1)) = length xs + (if I then 1 else 0)
    \<and> length (list_items h2 (cp_messages p2)) = length xs + 2 + (if I then 1 else 0)"
proof -
  from native_run [OF run] obtain r' xs' s1 h1 s2 h2 where
    M: "VRef r = VRef r'" and list': "lookup (w_heap w) r' = Some (OList xs')"
    and calls: "w_calls w' = w_calls w @ [(ClaudeRequest (native_params model S s1), h1),
                                 (ClaudeRequest (native_params model S s2), h2)]"
    and i1: "list_items h1 s1 = xs' @ (if I then [VRef (length (w_heap w))] else [])"
    and i2: "list_items h2 s2 = xs' @ [VRef (length h1), VRef (Suc (length h1))]
                            @ (if I then [VRef (Suc (Suc (length h1)))] else [])"
    by blast
  from M list list' have eq: "xs' = xs" by simp
  have a: "length (list_items h1 (cp_messages (native_params model S s1)))
             = length xs + (if I then 1 else 0)"
    by (simp add: native_params_def i1 eq)
  have b: "length (list_items h2 (cp_messages (native_params model S s2)))
             = length xs + 2 + (if I then 1 else 0)"
    by (simp add: native_params_def i2 eq)
  show ?thesis
    by (rule exI [where x = "native_params model S s1"], rule exI [where x = h1],
        rule exI [where x = "native_params model S s2"], rule exI [where x = h2])
       (intro conjI calls a b)
qed


theorem stream_claude_response_payload_witness:
  "getitem (snd (hd (w_calls (snd (stream_claude_response 1000 sample_images sample_provider
       (VRef 0) CLAUDE_3_5_SONNET_2024_06_20 sample_chat))))) (VRef 16) ''type''
     \<noteq> Inr (VStr ''image_url'')"
proof -
  let ?R = "stream_claude_response 1000 sample_images sample_provider
       (VRef 0) CLAUDE_3_5_SONNET_2024_06_20 sample_chat"
  let ?h = "snd (hd (w_calls (snd ?R)))"
  let ?p = "claude_request_params CLAUDE_3_5_SONNET_2024_06_20 (VStr ''You write HTML.'') (VRef 19)"
  have "map fst (w_calls (snd ?R)) = [ClaudeRequest ?p]" by code_simp
  then have sent: "w_calls (snd ?R) = w_calls sample_chat @ [(ClaudeRequest ?p, ?h)]"
    by (cases "w_calls (snd ?R)") (auto simp: sample_chat_def)
  have "list_items ?h (cp_messages ?p) = [VRef 18]" by code_simp
  then have m: "VRef 18 \<in> set (list_items ?h (cp_messages ?p))" by simp
  have c: "getitem ?h (VRef 18) ''content'' = Inr (VRef 14)" by code_simp
  have l: "is_list ?h (VRef 14)" by code_simp
  have "list_items ?h (VRef 14) = [VRef 15, VRef 16]" by code_simp
  then have p: "VRef 16 \<in> set (list_items ?h (VRef 14))" by simp
  from stream_claude_response_payload [OF sent m c l p] show ?thesis .
qed

theorem native_request_lengths_witness:
  "\<exists>p1 h1 p2 h2.
      w_calls (snd (stream_claude_response_native sample_provider False (\<lambda>t. t)
                      (VStr ''You write HTML.'') (VRef 0) True CLAUDE_3_OPUS sample_world))
        = w_calls sample_world @ [(ClaudeRequest p1, h1), (ClaudeRequest p2, h2)]
    \<and> length (list_items h1 (cp_messages p1)) = length [VRef 1] + (if True then 1 else 0)
    \<and> length (list_items h2 (cp_messages p2)) = length [VRef 1] + 2 + (if True then 1 else 0)"
proof -
  let ?R = "stream_claude_response_native sample_provider False (\<lambda>t. t)
              (VStr ''You write HTML.'') (VRef 0) True CLAUDE_3_OPUS sample_world"
  have "fst ?R = Inr ''FINAL''" by code_simp
  then have run: "?R = (Inr ''FINAL'', snd ?R)" by (simp add: prod_eq_iff)
  have list: "lookup (w_heap sample_world) 0 = Some (OList [VRef 1])" by code_simp
  from native_request_lengths [OF run list] show ?thesis .
qed

end
